theory Spec2Isabelle
  imports Complex_Main "HOL-Library.Word"
begin

section \<open>Bytes, exceptions and the external primitives\<close>

text \<open>
  Python \<open>bytes\<close> are lists of 8-bit words, Python integers are \<open>int\<close>. Every
  exception that the modelled code can raise is a value of \<open>error\<close>; a function that
  may raise returns \<open>error + 'a\<close> with \<open>Inl\<close> for the exception. The text of an
  assertion message is kept (for the f-strings, without the interpolated values).
\<close>

type_synonym byte = "8 word"
type_synonym bytes = "byte list"

datatype error =
    AssertionError string
  | InvalidSignature
  | ValueError
  | OverflowError
  | ZeroDivisionError
  | KeyError
  | IndexError

text \<open>\<open>x.to_bytes(n, 'little')\<close>: OverflowError for a negative \<open>x\<close> or one that does
  not fit into \<open>n\<close> bytes.\<close>

fun le_digits :: "nat \<Rightarrow> int \<Rightarrow> bytes" where
  "le_digits 0 x = []"
| "le_digits (Suc n) x = word_of_int (x mod 256) # le_digits n (x div 256)"

definition to_bytes_little :: "int \<Rightarrow> nat \<Rightarrow> error + bytes" where
  "to_bytes_little x n =
     (if x < 0 \<or> 256 ^ n \<le> x then Inl OverflowError else Inr (le_digits n x))"

text \<open>\<open>int.from_bytes(b, "big")\<close>.\<close>

definition from_bytes_big :: "bytes \<Rightarrow> int" where
  "from_bytes_big b = foldl (\<lambda>acc d. acc * 256 + uint d) 0 b"

text \<open>
  The \<open>cryptography\<close> package is not part of the repository: its primitives are
  parameters of the model. \<open>'k\<close> is the type of the library's public-key objects.
  \<open>load_der_public_key\<close> is \<open>None\<close> where the library raises ValueError, and
  \<open>ecdsa_verify key signature digest\<close> is \<open>False\<close> where \<open>key.verify\<close> raises
  InvalidSignature.
\<close>

record 'k crypto =
  sha1 :: "bytes \<Rightarrow> bytes"
  sha256 :: "bytes \<Rightarrow> bytes"
  public_bytes :: "'k \<Rightarrow> bytes"
  load_der_public_key :: "bytes \<Rightarrow> 'k option"
  ecdsa_verify :: "'k \<Rightarrow> bytes \<Rightarrow> bytes \<Rightarrow> bool"

text \<open>A public key is held either DER-encoded (\<open>bytes\<close>) or as a key object.\<close>

datatype 'k pubkey = KeyBytes bytes | KeyObject 'k

text \<open>\<open>pk_serialize(public_key, 'ser')\<close> and \<open>pk_serialize(public_key, 'des')\<close>.\<close>

fun pk_serialize_ser :: "'k crypto \<Rightarrow> 'k pubkey \<Rightarrow> bytes" where
  "pk_serialize_ser cr (KeyBytes b) = b"
| "pk_serialize_ser cr (KeyObject k) = public_bytes cr k"

fun pk_serialize_des :: "'k crypto \<Rightarrow> 'k pubkey \<Rightarrow> error + 'k" where
  "pk_serialize_des cr (KeyBytes b) =
     (case load_der_public_key cr b of None \<Rightarrow> Inl ValueError | Some k \<Rightarrow> Inr k)"
| "pk_serialize_des cr (KeyObject k) = Inr k"

definition generate_address :: "'k crypto \<Rightarrow> 'k pubkey \<Rightarrow> bytes" where
  "generate_address cr public_key = sha1 cr (pk_serialize_ser cr public_key)"

text \<open>\<open>sha256_hash(message_components)\<close>: the digest is updated with each
  component in turn, which hashes their concatenation. With \<open>finalize = False\<close> the
  unfinished digest is returned; it is modelled by the bytes fed to it so far.\<close>

definition sha256_hash :: "'k crypto \<Rightarrow> bytes list \<Rightarrow> bytes" where
  "sha256_hash cr message_components = sha256 cr (concat message_components)"

definition sha256_unfinalized :: "bytes list \<Rightarrow> bytes" where
  "sha256_unfinalized message_components = concat message_components"

section \<open>True division and the proof-of-work test\<close>

text \<open>
  \<open>a / b\<close> on two Python integers is true division: the result is the IEEE-754
  double nearest to the exact quotient (ties to even), ZeroDivisionError for
  \<open>b = 0\<close> and OverflowError when the quotient is too large for a double. A finite
  double is modelled by the rational number it denotes. Comparing an integer with a
  float in Python compares the exact values.
\<close>

function bit_length :: "int \<Rightarrow> nat" where
  "bit_length n = (if n \<le> 0 then 0 else Suc (bit_length (n div 2)))"
  by pat_completeness auto
termination
  by (relation "measure nat") auto

declare bit_length.simps [simp del]

definition round_half_even :: "int \<Rightarrow> int \<Rightarrow> int" where
  "round_half_even n d =
     (let q = n div d; r = n mod d
      in if 2 * r < d then q
         else if d < 2 * r then q + 1
         else if even q then q else q + 1)"

text \<open>\<open>floor_log2 n d\<close> is the \<open>e\<close> with \<open>2 ^ e \<le> n / d < 2 ^ (e + 1)\<close>, for
  positive \<open>n\<close> and \<open>d\<close>.\<close>

definition floor_log2 :: "int \<Rightarrow> int \<Rightarrow> int" where
  "floor_log2 n d =
     (let k = int (bit_length n) - int (bit_length d)
      in if (if 0 \<le> k then d * 2 ^ nat k \<le> n else d \<le> n * 2 ^ nat (- k))
         then k else k - 1)"

definition scale2 :: "int \<Rightarrow> int \<Rightarrow> rat" where
  "scale2 m e = (if 0 \<le> e then of_int (m * 2 ^ nat e) else of_int m / of_int (2 ^ nat (- e)))"

definition py_truediv :: "int \<Rightarrow> int \<Rightarrow> error + rat" where
  "py_truediv a b =
     (if b = 0 then Inl ZeroDivisionError
      else if a = 0 then Inr 0
      else
        let n = \<bar>a\<bar>; d = \<bar>b\<bar>;
            e = max (floor_log2 n d - 52) (- 1074);
            m = (if 0 \<le> e then round_half_even n (d * 2 ^ nat e)
                 else round_half_even (n * 2 ^ nat (- e)) d);
            v = scale2 m e
        in if 2 ^ 1024 \<le> v then Inl OverflowError
           else Inr (if (a < 0) = (b < 0) then v else - v))"

definition int_le_float :: "int \<Rightarrow> rat \<Rightarrow> bool" where
  "int_le_float i f = (of_int i \<le> f)"

text \<open>\<open>target = (2**256)/difficulty\<close>, as in \<open>mine_block\<close>, and the test
  \<open>int.from_bytes(block_id, "big") <= (2**256)/difficulty\<close> of
  \<open>Block.verify_and_get_changes\<close> and \<open>puzzle_solver\<close>.\<close>

definition pow_target :: "int \<Rightarrow> error + rat" where
  "pow_target difficulty = py_truediv (2 ^ 256) difficulty"

definition pow_test :: "bytes \<Rightarrow> int \<Rightarrow> error + bool" where
  "pow_test digest difficulty =
     (case pow_target difficulty of
        Inl e \<Rightarrow> Inl e
      | Inr target \<Rightarrow> Inr (int_le_float (from_bytes_big digest) target))"

section \<open>Transactions\<close>

record 'k Transaction =
  sender_hash :: bytes
  recipient_hash :: bytes
  sender_public_key :: "'k pubkey"
  amount :: int
  fee :: int
  nonce :: int
  signature :: bytes
  txid :: bytes

text \<open>The three little-endian 8-byte fields \<open>amount\<close>, \<open>fee\<close>, \<open>nonce\<close>, in the
  order in which every pre-image evaluates them.\<close>

definition le8_fields :: "'k Transaction \<Rightarrow> error + bytes \<times> bytes \<times> bytes" where
  "le8_fields t =
     (case to_bytes_little (amount t) 8 of
        Inl e \<Rightarrow> Inl e
      | Inr a \<Rightarrow>
          (case to_bytes_little (fee t) 8 of
             Inl e \<Rightarrow> Inl e
           | Inr f \<Rightarrow>
               (case to_bytes_little (nonce t) 8 of
                  Inl e \<Rightarrow> Inl e
                | Inr n \<Rightarrow> Inr (a, f, n))))"

text \<open>The hash that \<open>verify\<close> compares \<open>txid\<close> with, and the hash of the signed
  message.\<close>

definition txid_hash :: "'k crypto \<Rightarrow> 'k Transaction \<Rightarrow> error + bytes" where
  "txid_hash cr t =
     (case le8_fields t of
        Inl e \<Rightarrow> Inl e
      | Inr (a, f, n) \<Rightarrow>
          Inr (sha256_hash cr [sender_hash t, recipient_hash t,
                 pk_serialize_ser cr (sender_public_key t), a, f, n, signature t]))"

definition msg_hash :: "'k crypto \<Rightarrow> 'k Transaction \<Rightarrow> error + bytes" where
  "msg_hash cr t =
     (case le8_fields t of
        Inl e \<Rightarrow> Inl e
      | Inr (a, f, n) \<Rightarrow> Inr (sha256_hash cr [recipient_hash t, a, f, n]))"

text \<open>The last step of \<open>verify\<close>: decode the key and check the signature.\<close>

definition verify_signature :: "'k crypto \<Rightarrow> 'k Transaction \<Rightarrow> error + bool" where
  "verify_signature cr t =
     (case msg_hash cr t of
        Inl e \<Rightarrow> Inl e
      | Inr h \<Rightarrow>
          (case pk_serialize_des cr (sender_public_key t) of
             Inl e \<Rightarrow> Inl e
           | Inr decoded_public_key \<Rightarrow>
               if ecdsa_verify cr decoded_public_key (signature t) h then Inr True
               else Inl InvalidSignature))"

text \<open>\<open>Transaction.verify(sender_balance, sender_previous_nonce)\<close>. The two
  handlers print and re-raise, so every exception reaches the caller.\<close>

definition verify :: "'k crypto \<Rightarrow> 'k Transaction \<Rightarrow> int \<Rightarrow> int \<Rightarrow> error + bool" where
  "verify cr t sender_balance sender_previous_nonce =
     (if length (sender_hash t) \<noteq> 20 then
        Inl (AssertionError ''Sender hash should should be 20 bytes long'')
      else if sender_hash t \<noteq> generate_address cr (sender_public_key t) then
        Inl (AssertionError ''Sender hash be SHA1 hash of sender public key'')
      else if length (recipient_hash t) \<noteq> 20 then
        Inl (AssertionError ''Recipient hash should should be 20 bytes long'')
      else if amount t mod 1 \<noteq> 0 then
        Inl (AssertionError ''Amount should be whole number'')
      else if \<not> (0 < amount t \<and> amount t \<le> sender_balance) then
        Inl (AssertionError ''Balance too small - amount should be positive and at most equal to sender_balance'')
      else if fee t mod 1 \<noteq> 0 then
        Inl (AssertionError ''Fee should be whole number'')
      else if \<not> (0 \<le> fee t \<and> fee t \<le> amount t) then
        Inl (AssertionError ''Fee should range between zero and amount'')
      else if nonce t \<noteq> sender_previous_nonce + 1 then
        Inl (AssertionError ''Invalid nonce - current nonce should be previous nonce incremented by 1'')
      else
        (case txid_hash cr t of
           Inl e \<Rightarrow> Inl e
         | Inr h \<Rightarrow>
             if txid t \<noteq> h then
               Inl (AssertionError ''Transaction ID does not correspond to the hash of the transaction components: sender hash, recipient hash, sender public key, amount, fee, nonce, signature'')
             else verify_signature cr t))"

section \<open>User states and the account dictionary\<close>

record UserState =
  balance :: int
  nonce :: int

definition earn :: "UserState \<Rightarrow> int \<Rightarrow> bool \<Rightarrow> int" where
  "earn self amnt undo =
     (if \<not> undo then balance self + amnt else balance self - amnt)"

definition spend :: "UserState \<Rightarrow> int \<Rightarrow> bool \<Rightarrow> int \<times> int" where
  "spend self amnt undo =
     (if \<not> undo then (balance self - amnt, UserState.nonce self + 1)
      else (balance self + amnt, UserState.nonce self - 1))"

text \<open>
  \<open>UserState\<close> objects are mutable and are shared between dictionaries, so they live
  in an explicit store: a list of objects, a reference being an index into it, and a
  new object being appended. A dictionary holds its keys in insertion order with the
  reference stored under each; \<open>has_default\<close> tells a
  \<open>defaultdict(lambda: UserState(0,-1))\<close> from a plain \<open>dict\<close>. Every dictionary
  that the code writes to is one it has just created (by the \<open>defaultdict\<close>
  constructor or by \<open>deepcopy\<close>), so the dictionary itself is passed as a value.
\<close>

type_synonym ref = nat

record user_dict =
  has_default :: bool
  items :: "(bytes \<times> ref) list"

text \<open>\<open>d[k]\<close>: a missing key raises KeyError in a plain dictionary; in a
  \<open>defaultdict\<close> it creates \<open>UserState(0,-1)\<close>, stores it under \<open>k\<close> and returns
  it.\<close>

definition getitem ::
  "bytes \<Rightarrow> user_dict \<times> UserState list \<Rightarrow> error + ref \<times> user_dict \<times> UserState list" where
  "getitem k dh =
     (case map_of (items (fst dh)) k of
        Some r \<Rightarrow> Inr (r, dh)
      | None \<Rightarrow>
          if has_default (fst dh) then
            Inr (length (snd dh),
                 (fst dh)\<lparr>items := items (fst dh) @ [(k, length (snd dh))]\<rparr>,
                 snd dh @ [\<lparr>balance = 0, nonce = - 1\<rparr>])
          else Inl KeyError)"

text \<open>The statement \<open>d[k].balance = d[k].earn(amnt, undo)\<close>. The right-hand side
  looks \<open>k\<close> up first (and creates the entry in a \<open>defaultdict\<close>); the look-up of
  the left-hand side then finds the same object.\<close>

definition earn_stmt ::
  "bytes \<Rightarrow> int \<Rightarrow> bool \<Rightarrow> user_dict \<times> UserState list \<Rightarrow> error + user_dict \<times> UserState list" where
  "earn_stmt k amnt undo dh =
     (case getitem k dh of
        Inl e \<Rightarrow> Inl e
      | Inr (r, d, h) \<Rightarrow> Inr (d, h[r := (h ! r)\<lparr>balance := earn (h ! r) amnt undo\<rparr>]))"

text \<open>The statement \<open>d[k].balance, d[k].nonce = d[k].spend(amnt, undo)\<close>.\<close>

definition spend_stmt ::
  "bytes \<Rightarrow> int \<Rightarrow> bool \<Rightarrow> user_dict \<times> UserState list \<Rightarrow> error + user_dict \<times> UserState list" where
  "spend_stmt k amnt undo dh =
     (case getitem k dh of
        Inl e \<Rightarrow> Inl e
      | Inr (r, d, h) \<Rightarrow>
          (case spend (h ! r) amnt undo of
             (b, n) \<Rightarrow> Inr (d, h[r := (h ! r)\<lparr>balance := b, nonce := n\<rparr>])))"

text \<open>\<open>copy.deepcopy\<close> of a dictionary: every object is copied once, the memo maps
  an object already copied to its copy, so that sharing is kept.\<close>

fun deepcopy_items ::
  "(bytes \<times> ref) list \<Rightarrow> (ref \<times> ref) list \<Rightarrow> UserState list \<Rightarrow> (bytes \<times> ref) list \<times> UserState list" where
  "deepcopy_items [] memo h = ([], h)"
| "deepcopy_items ((k, r) # xs) memo h =
     (case map_of memo r of
        Some r' \<Rightarrow>
          (case deepcopy_items xs memo h of (ys, h') \<Rightarrow> ((k, r') # ys, h'))
      | None \<Rightarrow>
          (case deepcopy_items xs ((r, length h) # memo) (h @ [h ! r]) of
             (ys, h') \<Rightarrow> ((k, length h) # ys, h')))"

definition deepcopy_dict :: "user_dict \<Rightarrow> UserState list \<Rightarrow> user_dict \<times> UserState list" where
  "deepcopy_dict d h =
     (case deepcopy_items (items d) [] h of (ys, h') \<Rightarrow> (d\<lparr>items := ys\<rparr>, h'))"

section \<open>Blocks\<close>

record 'k Block =
  previous :: bytes
  height :: int
  miner :: bytes
  transactions :: "'k Transaction list"
  timestamp :: int
  difficulty :: int
  block_id :: bytes
  nonce :: int

text \<open>The loop of \<open>Block.update_states\<close>. An exception ends it; the objects
  changed so far stay changed, so the store is returned in either case. The balance
  and the nonce of the sender are read from the object that the first look-up of
  \<open>t.sender_hash\<close> returns. \<open>assert t.verify(...)\<close> raises what \<open>verify\<close> raises,
  and an AssertionError without a message if \<open>verify\<close> returned \<open>False\<close>.\<close>

fun update_loop ::
  "'k crypto \<Rightarrow> bytes \<Rightarrow> 'k Transaction list \<Rightarrow> user_dict \<times> UserState list
     \<Rightarrow> (error + user_dict) \<times> UserState list" where
  "update_loop cr m [] dh = (Inr (fst dh), snd dh)"
| "update_loop cr m (t # ts) dh =
     (case getitem (sender_hash t) dh of
        Inl e \<Rightarrow> (Inl e, snd dh)
      | Inr (r, dh1) \<Rightarrow>
          (case verify cr t (balance (snd dh1 ! r)) (UserState.nonce (snd dh1 ! r)) of
             Inl e \<Rightarrow> (Inl e, snd dh1)
           | Inr ok \<Rightarrow>
               if \<not> ok then (Inl (AssertionError []), snd dh1)
               else
                 (case earn_stmt m (fee t) False dh1 of
                    Inl e \<Rightarrow> (Inl e, snd dh1)
                  | Inr dh2 \<Rightarrow>
                      (case spend_stmt (sender_hash t) (amount t) False dh2 of
                         Inl e \<Rightarrow> (Inl e, snd dh2)
                       | Inr dh3 \<Rightarrow>
                           (case earn_stmt (recipient_hash t) (amount t - fee t) False dh3 of
                              Inl e \<Rightarrow> (Inl e, snd dh3)
                            | Inr dh4 \<Rightarrow> update_loop cr m ts dh4)))))"

text \<open>\<open>Block.update_states(previous_user_states)\<close> with the default mining reward.
  \<open>defaultdict(factory, previous_user_states)\<close> is a new dictionary with the same
  keys and the \<^emph>\<open>same\<close> objects.\<close>

definition update_states ::
  "'k crypto \<Rightarrow> 'k Block \<Rightarrow> user_dict \<Rightarrow> UserState list \<Rightarrow> (error + user_dict) \<times> UserState list" where
  "update_states cr self previous_user_states h =
     (let updated_user_states = \<lparr>has_default = True, items = items previous_user_states\<rparr>
      in case earn_stmt (miner self) 10000 False (updated_user_states, h) of
           Inl e \<Rightarrow> (Inl e, h)
         | Inr dh \<Rightarrow> update_loop cr (miner self) (transactions self) dh)"

text \<open>The components of the block header up to the difficulty, and the hash of
  the whole header.\<close>

definition header_components ::
  "bytes \<Rightarrow> bytes \<Rightarrow> 'k Transaction list \<Rightarrow> int \<Rightarrow> int \<Rightarrow> error + bytes list" where
  "header_components prev mnr txs ts dfc =
     (let transaction_ids = concat (map txid txs)
      in case to_bytes_little ts 8 of
           Inl e \<Rightarrow> Inl e
         | Inr tsb \<Rightarrow>
             (case to_bytes_little dfc 16 of
                Inl e \<Rightarrow> Inl e
              | Inr dfb \<Rightarrow> Inr [prev, mnr, transaction_ids, tsb, dfb]))"

definition header_hash ::
  "'k crypto \<Rightarrow> bytes \<Rightarrow> bytes \<Rightarrow> 'k Transaction list \<Rightarrow> int \<Rightarrow> int \<Rightarrow> int \<Rightarrow> error + bytes" where
  "header_hash cr prev mnr txs ts dfc nnc =
     (case header_components prev mnr txs ts dfc of
        Inl e \<Rightarrow> Inl e
      | Inr cs \<Rightarrow>
          (case to_bytes_little nnc 8 of
             Inl e \<Rightarrow> Inl e
           | Inr nb \<Rightarrow> Inr (sha256_hash cr (cs @ [nb]))))"

text \<open>\<open>Block.verify_and_get_changes(difficulty, previous_user_states)\<close>.\<close>

definition verify_and_get_changes ::
  "'k crypto \<Rightarrow> 'k Block \<Rightarrow> int \<Rightarrow> user_dict \<Rightarrow> UserState list \<Rightarrow> (error + user_dict) \<times> UserState list" where
  "verify_and_get_changes cr self dfc previous_user_states h =
     (if difficulty self \<noteq> dfc then
        (Inl (AssertionError ''Incorrect difficulty - difficulty of block should match the difficulty argument''), h)
      else
        (case header_hash cr (previous self) (miner self) (transactions self) (timestamp self) dfc
                (Block.nonce self) of
           Inl e \<Rightarrow> (Inl e, h)
         | Inr hh \<Rightarrow>
             if block_id self \<noteq> hh then
               (Inl (AssertionError ''Block ID does not correspond to the SHA256 hash of the block header components: previous, miner, transaction_ids, timestamp, difficulty, nonce''), h)
             else if \<not> length (transactions self) \<le> 25 then
               (Inl (AssertionError ''Block can only contain at most 25 transactions''), h)
             else if length (miner self) \<noteq> 20 then
               (Inl (AssertionError ''Miner hash should be 20 bytes long''), h)
             else
               (case pow_test (block_id self) (difficulty self) of
                  Inl e \<Rightarrow> (Inl e, h)
                | Inr ok \<Rightarrow>
                    if \<not> ok then
                      (Inl (AssertionError ''Invalid proof of work - block ID should be small enough to match block difficulty''), h)
                    else update_states cr self previous_user_states h)))"

text \<open>The loop of \<open>Block.get_changes_for_undo\<close> and the method itself, with the
  default mining reward.\<close>

fun undo_loop ::
  "bytes \<Rightarrow> 'k Transaction list \<Rightarrow> user_dict \<times> UserState list \<Rightarrow> (error + user_dict) \<times> UserState list" where
  "undo_loop m [] dh = (Inr (fst dh), snd dh)"
| "undo_loop m (t # ts) dh =
     (case earn_stmt m (fee t) True dh of
        Inl e \<Rightarrow> (Inl e, snd dh)
      | Inr dh1 \<Rightarrow>
          (case spend_stmt (sender_hash t) (amount t) True dh1 of
             Inl e \<Rightarrow> (Inl e, snd dh1)
           | Inr dh2 \<Rightarrow>
               (case earn_stmt (recipient_hash t) (amount t - fee t) True dh2 of
                  Inl e \<Rightarrow> (Inl e, snd dh2)
                | Inr dh3 \<Rightarrow> undo_loop m ts dh3)))"

definition get_changes_for_undo ::
  "'k Block \<Rightarrow> user_dict \<Rightarrow> UserState list \<Rightarrow> (error + user_dict) \<times> UserState list" where
  "get_changes_for_undo self user_states_after h =
     (let undone_user_states = deepcopy_dict user_states_after h
      in case earn_stmt (miner self) 10000 True undone_user_states of
           Inl e \<Rightarrow> (Inl e, snd undone_user_states)
         | Inr dh \<Rightarrow> undo_loop (miner self) (transactions self) dh)"

section \<open>Mining\<close>

text \<open>\<open>puzzle_solver\<close>: the candidates are 0, 1, 2, ...; the loop ends with the first
  candidate whose digest passes the test, or with the OverflowError that
  \<open>candidate_nonce.to_bytes(8, 'little')\<close> raises at \<open>2 ^ 64\<close>.\<close>

function puzzle_solver_from :: "'k crypto \<Rightarrow> bytes \<Rightarrow> rat \<Rightarrow> int \<Rightarrow> error + int" where
  "puzzle_solver_from cr block_description target candidate_nonce =
     (if candidate_nonce < 0 \<or> 2 ^ 64 \<le> candidate_nonce then Inl OverflowError
      else if int_le_float
                (from_bytes_big (sha256 cr (block_description @ le_digits 8 candidate_nonce)))
                target
           then Inr candidate_nonce
      else puzzle_solver_from cr block_description target (candidate_nonce + 1))"
  by pat_completeness auto
termination
  by (relation "measure (\<lambda>(cr, bd, tg, c). nat (2 ^ 64 - c))") auto

declare puzzle_solver_from.simps [simp del]

definition puzzle_solver :: "'k crypto \<Rightarrow> bytes \<Rightarrow> rat \<Rightarrow> error + int" where
  "puzzle_solver cr block_description target = puzzle_solver_from cr block_description target 0"

definition mine_block ::
  "'k crypto \<Rightarrow> bytes \<Rightarrow> int \<Rightarrow> bytes \<Rightarrow> 'k Transaction list \<Rightarrow> int \<Rightarrow> int \<Rightarrow> error + 'k Block" where
  "mine_block cr prev hgt mnr txs ts dfc =
     (case header_components prev mnr txs ts dfc of
        Inl e \<Rightarrow> Inl e
      | Inr cs \<Rightarrow>
          (case pow_target dfc of
             Inl e \<Rightarrow> Inl e
           | Inr target \<Rightarrow>
               (case puzzle_solver cr (sha256_unfinalized cs) target of
                  Inl e \<Rightarrow> Inl e
                | Inr nnc \<Rightarrow>
                    (case header_hash cr prev mnr txs ts dfc nnc of
                       Inl e \<Rightarrow> Inl e
                     | Inr bid \<Rightarrow>
                         Inr \<lparr>previous = prev, height = hgt, miner = mnr, transactions = txs,
                              timestamp = ts, difficulty = dfc, block_id = bid, nonce = nnc\<rparr>))))"

section \<open>The chain state\<close>

text \<open>
  \<open>longest_chain\<close> is a Python list, changed in place by \<open>append\<close> and \<open>pop\<close>: the
  lists live in the store too, beside the \<open>UserState\<close> objects, and a
  \<open>BlockchainState\<close> holds a reference to its list. Blocks and transactions are
  never written to after their construction and are values. The attributes of a
  \<open>BlockchainState\<close> are assigned to only through \<open>self\<close>: a method takes the
  state and returns it, also when it raises.
\<close>

record 'k heap =
  user_objs :: "UserState list"
  list_objs :: "'k Block list list"

record BlockchainState =
  longest_chain :: ref
  user_states :: user_dict
  total_difficulty :: int

definition chain_of :: "BlockchainState \<Rightarrow> 'k heap \<Rightarrow> 'k Block list" where
  "chain_of self hp = list_objs hp ! longest_chain self"

text \<open>\<open>BlockchainState.calculate_difficulty()\<close>. \<open>//\<close> is floor division, as
  \<open>div\<close> on \<open>int\<close> is.\<close>

definition calculate_difficulty :: "BlockchainState \<Rightarrow> 'k heap \<Rightarrow> int" where
  "calculate_difficulty self hp =
     (let chain = chain_of self hp
      in if length chain \<le> 10 then 1000
         else
           let total_difficulty_for_period =
                 sum_list (map difficulty (drop (length chain - 10) chain));
               block_prev = last chain;
               block_n_minus_11 = chain ! (length chain - 11);
               total_time_for_period = timestamp block_prev - timestamp block_n_minus_11;
               total_time_for_period =
                 (if total_time_for_period = 0 then 1 else total_time_for_period)
           in (total_difficulty_for_period div total_time_for_period) * 120)"

text \<open>\<open>BlockchainState.verify_and_apply_block(block)\<close>.\<close>

definition verify_and_apply_block ::
  "'k crypto \<Rightarrow> 'k Block \<Rightarrow> BlockchainState \<Rightarrow> 'k heap \<Rightarrow> (error + unit) \<times> BlockchainState \<times> 'k heap" where
  "verify_and_apply_block cr block self hp =
     (let chain = chain_of self hp
      in if height block \<noteq> int (length chain) then
           (Inl (AssertionError ''Height of block should equal length of valid chain''), self, hp)
         else if (if length chain = 0 then previous block \<noteq> replicate 32 0
                  else previous block \<noteq> block_id (last chain)) then
           (Inl (AssertionError ''Previous block ID should match ID of last block in chain''), self, hp)
         else if 0 < length chain \<and> \<not> timestamp (last chain) \<le> timestamp block then
           (Inl (AssertionError ''Timestamp should not be less than that of parent block''), self, hp)
         else
           let updated_difficulty = calculate_difficulty self hp
           in case verify_and_get_changes cr block updated_difficulty (user_states self)
                     (user_objs hp) of
                (Inl e, uo) \<Rightarrow> (Inl e, self, hp\<lparr>user_objs := uo\<rparr>)
              | (Inr updated_states, uo) \<Rightarrow>
                  (Inr (),
                   self\<lparr>total_difficulty := total_difficulty self + difficulty block,
                        user_states := updated_states\<rparr>,
                   hp\<lparr>user_objs := uo,
                      list_objs := (list_objs hp)[longest_chain self := chain @ [block]]\<rparr>))"

text \<open>\<open>BlockchainState.undo_last_block()\<close>; \<open>pop\<close> raises IndexError on an empty
  list.\<close>

definition undo_last_block ::
  "BlockchainState \<Rightarrow> 'k heap \<Rightarrow> (error + unit) \<times> BlockchainState \<times> 'k heap" where
  "undo_last_block self hp =
     (let chain = chain_of self hp
      in if chain = [] then (Inl IndexError, self, hp)
         else
           let removed_block = last chain;
               hp1 = hp\<lparr>list_objs := (list_objs hp)[longest_chain self := butlast chain]\<rparr>;
               self1 = self\<lparr>total_difficulty := total_difficulty self - difficulty removed_block\<rparr>
           in case get_changes_for_undo removed_block (user_states self1) (user_objs hp1) of
                (Inl e, uo) \<Rightarrow> (Inl e, self1, hp1\<lparr>user_objs := uo\<rparr>)
              | (Inr undone_states, uo) \<Rightarrow>
                  (Inr (), self1\<lparr>user_states := undone_states\<rparr>, hp1\<lparr>user_objs := uo\<rparr>))"

section \<open>Reorganisation\<close>

text \<open>
  The first loop of \<open>verify_reorg\<close> runs over \<open>reversed(new_state.longest_chain)\<close>
  while \<open>undo_last_block\<close> pops from that list. The reverse iterator holds an index,
  starting at the last position; each step yields the element at the index if the
  index is still inside the list, and moves the index down by one. The first argument
  of \<open>reorg_undo\<close> is that index plus one.
\<close>

fun reorg_undo ::
  "nat \<Rightarrow> int \<Rightarrow> BlockchainState \<Rightarrow> 'k heap \<Rightarrow> (error + unit) \<times> BlockchainState \<times> 'k heap" where
  "reorg_undo 0 split_height new_state hp = (Inr (), new_state, hp)"
| "reorg_undo (Suc i) split_height new_state hp =
     (let chain = chain_of new_state hp
      in if \<not> i < length chain then (Inr (), new_state, hp)
         else if split_height \<le> height (chain ! i) then
           (case undo_last_block new_state hp of
              (Inl e, st, hp') \<Rightarrow> (Inl e, st, hp')
            | (Inr u, st, hp') \<Rightarrow> reorg_undo i split_height st hp')
         else (Inr (), new_state, hp))"

text \<open>The second loop: \<open>for block in new_branch: new_state.verify_and_apply_block(block)\<close>.\<close>

fun reorg_apply ::
  "'k crypto \<Rightarrow> 'k Block list \<Rightarrow> BlockchainState \<Rightarrow> 'k heap \<Rightarrow> (error + unit) \<times> BlockchainState \<times> 'k heap" where
  "reorg_apply cr [] new_state hp = (Inr (), new_state, hp)"
| "reorg_apply cr (block # bs) new_state hp =
     (case verify_and_apply_block cr block new_state hp of
        (Inl e, st, hp') \<Rightarrow> (Inl e, st, hp')
      | (Inr u, st, hp') \<Rightarrow> reorg_apply cr bs st hp')"

text \<open>The working state that \<open>verify_reorg\<close> starts from: a new list with the blocks
  of the old chain (the copies of the blocks are equal to the blocks), a deep copy of
  the old dictionary, the old total difficulty.\<close>

definition reorg_start :: "BlockchainState \<Rightarrow> 'k heap \<Rightarrow> BlockchainState \<times> 'k heap" where
  "reorg_start old_state hp =
     (let start_chain = length (list_objs hp);
          hp1 = hp\<lparr>list_objs := list_objs hp @ [chain_of old_state hp]\<rparr>
      in case deepcopy_dict (user_states old_state) (user_objs hp1) of
           (start_states, uo) \<Rightarrow>
             (\<lparr>longest_chain = start_chain, user_states = start_states,
               total_difficulty = total_difficulty old_state\<rparr>,
              hp1\<lparr>user_objs := uo\<rparr>))"

text \<open>The undoing and the replay, up to the comparison of the difficulties.\<close>

definition reorg_replay ::
  "'k crypto \<Rightarrow> BlockchainState \<Rightarrow> 'k Block list \<Rightarrow> 'k heap \<Rightarrow> (error + unit) \<times> BlockchainState \<times> 'k heap" where
  "reorg_replay cr old_state new_branch hp =
     (case reorg_start old_state hp of
        (new_state, hp1) \<Rightarrow>
          (case new_branch of
             [] \<Rightarrow> (Inl IndexError, new_state, hp1)
           | b0 # bs \<Rightarrow>
               (case reorg_undo (length (chain_of new_state hp1)) (height b0) new_state hp1 of
                  (Inl e, st, hp2) \<Rightarrow> (Inl e, st, hp2)
                | (Inr u, st, hp2) \<Rightarrow> reorg_apply cr new_branch st hp2)))"

text \<open>\<open>verify_reorg(old_state, new_branch)\<close>: the new state, or the exception; the
  store in either case.\<close>

definition verify_reorg ::
  "'k crypto \<Rightarrow> BlockchainState \<Rightarrow> 'k Block list \<Rightarrow> 'k heap \<Rightarrow> (error + BlockchainState) \<times> 'k heap" where
  "verify_reorg cr old_state new_branch hp =
     (case reorg_replay cr old_state new_branch hp of
        (Inl e, new_state, hp') \<Rightarrow> (Inl e, hp')
      | (Inr u, new_state, hp') \<Rightarrow>
          if \<not> total_difficulty old_state < total_difficulty new_state then
            (Inl (AssertionError ''New chain has lower total difficulty than old chain''), hp')
          else (Inr new_state, hp'))"

section \<open>Predicates for the proofs\<close>

text \<open>\<open>fresh_from n (d, h)\<close>: the store \<open>h\<close> has at least \<open>n\<close> objects and every
  reference held by the dictionary \<open>d\<close> is \<open>n\<close> or larger, that is, \<open>d\<close> holds none
  of the first \<open>n\<close> objects.\<close>


definition fresh_from :: "nat \<Rightarrow> user_dict \<times> UserState list \<Rightarrow> bool" where
  "fresh_from n dh \<longleftrightarrow> n \<le> length (snd dh) \<and> (\<forall>r \<in> snd ` set (items (fst dh)). n \<le> r)"

text \<open>\<open>private_state n m (self, hp)\<close>: the dictionary of the state holds none of the
  first \<open>n\<close> user objects and its chain is not one of the first \<open>m\<close> lists.
  \<open>same_prefix n m hp hp'\<close>: the two stores agree on the first \<open>n\<close> user objects
  and the first \<open>m\<close> lists.\<close>


definition private_state :: "nat \<Rightarrow> nat \<Rightarrow> BlockchainState \<times> 'k heap \<Rightarrow> bool" where
  "private_state n m sh \<longleftrightarrow>
     fresh_from n (user_states (fst sh), user_objs (snd sh)) \<and> m \<le> longest_chain (fst sh)"

definition same_prefix :: "nat \<Rightarrow> nat \<Rightarrow> 'k heap \<Rightarrow> 'k heap \<Rightarrow> bool" where
  "same_prefix n m hp hp' \<longleftrightarrow>
     take n (user_objs hp') = take n (user_objs hp) \<and>
     take m (list_objs hp') = take m (list_objs hp)"

text \<open>\<open>chain_consistent self hp\<close>: the chain of the state is a list of the store and
  \<open>total_difficulty\<close> is the sum of the difficulties of its blocks.\<close>

definition chain_consistent :: "BlockchainState \<Rightarrow> 'k heap \<Rightarrow> bool" where
  "chain_consistent self hp \<longleftrightarrow>
     longest_chain self < length (list_objs hp) \<and>
     total_difficulty self = sum_list (map difficulty (chain_of self hp))"

text \<open>
  The account map that a dictionary and a store stand for: the state of the object
  stored under an address, and \<open>(balance = 0, nonce = -1)\<close> for an address that is
  not a key. \<open>wf_dict\<close>: the keys are distinct, every address has an object of its
  own, and every reference is an object of the store. \<open>total_balance\<close>: the sum of
  the balances over the keys. \<open>adjust a db dn\<close> adds \<open>db\<close> to the balance and \<open>dn\<close>
  to the nonce of the account \<open>a\<close>.
\<close>


type_synonym accounts = "bytes \<Rightarrow> UserState"

definition view :: "user_dict \<times> UserState list \<Rightarrow> accounts" where
  "view dh k =
     (case map_of (items (fst dh)) k of
        None \<Rightarrow> \<lparr>balance = 0, nonce = - 1\<rparr>
      | Some r \<Rightarrow> snd dh ! r)"

definition wf_dict :: "user_dict \<times> UserState list \<Rightarrow> bool" where
  "wf_dict dh \<longleftrightarrow>
     distinct (map fst (items (fst dh))) \<and> distinct (map snd (items (fst dh))) \<and>
     (\<forall>r \<in> snd ` set (items (fst dh)). r < length (snd dh))"

definition total_balance :: "user_dict \<times> UserState list \<Rightarrow> int" where
  "total_balance dh = sum_list (map (\<lambda>kr. balance (snd dh ! snd kr)) (items (fst dh)))"

definition adjust :: "bytes \<Rightarrow> int \<Rightarrow> int \<Rightarrow> accounts \<Rightarrow> accounts" where
  "adjust a db dn P =
     P(a := \<lparr>balance = balance (P a) + db, nonce = UserState.nonce (P a) + dn\<rparr>)"

text \<open>The effect of the transactions of a block on the account map, without the
  verification, and the effect of undoing them in the same order.\<close>

fun apply_effect :: "bytes \<Rightarrow> 'k Transaction list \<Rightarrow> accounts \<Rightarrow> accounts" where
  "apply_effect m [] P = P"
| "apply_effect m (t # ts) P =
     apply_effect m ts
       (adjust (recipient_hash t) (amount t - fee t) 0
          (adjust (sender_hash t) (- amount t) 1 (adjust m (fee t) 0 P)))"

fun undo_effect :: "bytes \<Rightarrow> 'k Transaction list \<Rightarrow> accounts \<Rightarrow> accounts" where
  "undo_effect m [] P = P"
| "undo_effect m (t # ts) P =
     undo_effect m ts
       (adjust (recipient_hash t) (- (amount t - fee t)) 0
          (adjust (sender_hash t) (amount t) (- 1) (adjust m (- fee t) 0 P)))"

text \<open>\<open>wf_state self hp\<close>: the chain of the state is a list of the store and its
  dictionary is well-formed.\<close>

definition wf_state :: "BlockchainState \<Rightarrow> 'k heap \<Rightarrow> bool" where
  "wf_state self hp \<longleftrightarrow>
     longest_chain self < length (list_objs hp) \<and> wf_dict (user_states self, user_objs hp)"

section \<open>The conditions of the specification\<close>

text \<open>The conditions under which a transaction is valid against the balance and the
  previous nonce of its sender, in the words of the specification: the lengths of the
  two hashes, the sender's address, the bounds on amount and fee, the nonce, the
  transaction identifier and the signature over the hash of the signed message.
  Amount, fee and nonce are 64-bit unsigned fields there: the pre-images hold their
  little-endian encodings of 8 bytes.\<close>

definition verify_conditions :: "'k crypto \<Rightarrow> 'k Transaction \<Rightarrow> int \<Rightarrow> int \<Rightarrow> bool" where
  "verify_conditions cr t sender_balance sender_previous_nonce \<longleftrightarrow>
     length (sender_hash t) = 20 \<and> length (recipient_hash t) = 20 \<and>
     sender_hash t = sha1 cr (pk_serialize_ser cr (sender_public_key t)) \<and>
     0 < amount t \<and> amount t \<le> sender_balance \<and>
     0 \<le> fee t \<and> fee t \<le> amount t \<and>
     Transaction.nonce t = sender_previous_nonce + 1 \<and>
     amount t < 2 ^ 64 \<and> 0 \<le> Transaction.nonce t \<and> Transaction.nonce t < 2 ^ 64 \<and>
     txid t =
       sha256 cr (sender_hash t @ recipient_hash t @
         pk_serialize_ser cr (sender_public_key t) @ le_digits 8 (amount t) @
         le_digits 8 (fee t) @ le_digits 8 (Transaction.nonce t) @ signature t) \<and>
     (case pk_serialize_des cr (sender_public_key t) of
        Inl e \<Rightarrow> False
      | Inr key \<Rightarrow>
          ecdsa_verify cr key (signature t)
            (sha256 cr (recipient_hash t @ le_digits 8 (amount t) @ le_digits 8 (fee t) @
               le_digits 8 (Transaction.nonce t))))"

text \<open>
  The state transition of a block on an account map, in the words of the
  specification: credit the miner with the mining reward of 10000; then, for each
  transaction in list order, verify it against the current balance and nonce of its
  sender (a failure aborts the block), credit the miner with the fee, debit the sender
  by the amount and increment the sender's nonce by 1, and credit the recipient with
  the amount minus the fee.
\<close>

definition credit :: "bytes \<Rightarrow> int \<Rightarrow> accounts \<Rightarrow> accounts" where
  "credit a x P = P(a := (P a)\<lparr>balance := balance (P a) + x\<rparr>)"

definition debit :: "bytes \<Rightarrow> int \<Rightarrow> accounts \<Rightarrow> accounts" where
  "debit a x P =
     P(a := (P a)\<lparr>balance := balance (P a) - x, UserState.nonce := UserState.nonce (P a) + 1\<rparr>)"

fun transition_loop ::
  "'k crypto \<Rightarrow> bytes \<Rightarrow> 'k Transaction list \<Rightarrow> accounts \<Rightarrow> error + accounts" where
  "transition_loop cr m [] P = Inr P"
| "transition_loop cr m (t # ts) P =
     (case verify cr t (balance (P (sender_hash t))) (UserState.nonce (P (sender_hash t))) of
        Inl e \<Rightarrow> Inl e
      | Inr ok \<Rightarrow>
          transition_loop cr m ts
            (credit (recipient_hash t) (amount t - fee t)
               (debit (sender_hash t) (amount t)
                  (credit m (fee t) P))))"

definition state_transition :: "'k crypto \<Rightarrow> 'k Block \<Rightarrow> accounts \<Rightarrow> error + accounts" where
  "state_transition cr B P =
     transition_loop cr (miner B) (transactions B) (credit (miner B) 10000 P)"

section \<open>Example values\<close>

text \<open>Concrete inputs on which the theorems below are instantiated. The example
  primitives \<open>example_crypto\<close> stand in for the library: every digest is zero, every
  signature verifies.\<close>

definition example_crypto :: "unit crypto" where
  "example_crypto =
     \<lparr>sha1 = (\<lambda>b. replicate 20 0), sha256 = (\<lambda>b. replicate 32 0),
      public_bytes = (\<lambda>k. []), load_der_public_key = (\<lambda>b. Some ()),
      ecdsa_verify = (\<lambda>k s h. True)\<rparr>"

definition example_block :: "unit Block" where
  "example_block =
     \<lparr>previous = replicate 32 0, height = 0, miner = replicate 20 1, transactions = [],
      timestamp = 0, difficulty = 1000, block_id = replicate 32 0, nonce = 0\<rparr>"

definition empty_state :: BlockchainState where
  "empty_state =
     \<lparr>longest_chain = 0, user_states = \<lparr>has_default = False, items = []\<rparr>,
      total_difficulty = 0\<rparr>"

definition heap_with_chain :: "unit Block list \<Rightarrow> unit heap" where
  "heap_with_chain chain = \<lparr>user_objs = [], list_objs = [chain]\<rparr>"

definition example_transaction :: "unit Transaction" where
  "example_transaction =
     \<lparr>sender_hash = replicate 20 0, recipient_hash = replicate 20 2,
      sender_public_key = KeyObject (), amount = 3000, fee = 25, nonce = 0,
      signature = [], txid = replicate 32 0\<rparr>"

text \<open>A digest between \<open>2 ^ 256 div 1000\<close> and the double nearest to
  \<open>2 ^ 256 / 1000\<close>, primitives whose SHA-256 returns it, and a block with that
  identifier; and the digest that is \<open>2 ^ 256 div 120\<close>.\<close>

definition gap_digest :: bytes where
  "gap_digest = [0, 65, 137, 55, 75, 198, 167, 240] @ replicate 24 0"

definition floor_digest_120 :: bytes where
  "floor_digest_120 = 2 # replicate 31 34"

definition gap_crypto :: "unit crypto" where
  "gap_crypto = example_crypto\<lparr>sha256 := (\<lambda>b. gap_digest)\<rparr>"

definition gap_block :: "unit Block" where
  "gap_block = example_block\<lparr>block_id := gap_digest\<rparr>"

text \<open>The state after \<open>example_block\<close> has been applied to the empty chain, and its
  store.\<close>


definition one_block_state :: BlockchainState where
  "one_block_state =
     \<lparr>longest_chain = 0,
      user_states = \<lparr>has_default = True, items = [(replicate 20 1, 0)]\<rparr>,
      total_difficulty = 1000\<rparr>"

definition one_block_heap :: "unit heap" where
  "one_block_heap =
     \<lparr>user_objs = [\<lparr>balance = 10000, nonce = - 1\<rparr>], list_objs = [[example_block]]\<rparr>"

text \<open>A transaction whose sender hash is not 20 bytes long, and a block for height 1
  that contains it.\<close>

definition bad_transaction :: "unit Transaction" where
  "bad_transaction = example_transaction\<lparr>sender_hash := []\<rparr>"

definition bad_block :: "unit Block" where
  "bad_block = example_block\<lparr>height := 1, transactions := [bad_transaction]\<rparr>"

text \<open>A block at height 0 whose miner is also the sender of its one transaction, a
  state with an empty chain in which that account exists with balance 0, and the
  dictionary and the store after the block.\<close>

definition paying_block :: "unit Block" where
  "paying_block =
     example_block\<lparr>miner := replicate 20 0, transactions := [example_transaction]\<rparr>"

definition funded_dict :: user_dict where
  "funded_dict = \<lparr>has_default = False, items = [(replicate 20 0, 0)]\<rparr>"

definition funded_state :: BlockchainState where
  "funded_state = \<lparr>longest_chain = 0, user_states = funded_dict, total_difficulty = 0\<rparr>"

definition funded_heap :: "unit heap" where
  "funded_heap = \<lparr>user_objs = [\<lparr>balance = 0, nonce = - 1\<rparr>], list_objs = [[]]\<rparr>"

definition miner_dict :: user_dict where
  "miner_dict = \<lparr>has_default = True, items = [(replicate 20 0, 0)]\<rparr>"

definition paid_dict :: user_dict where
  "paid_dict = \<lparr>has_default = True, items = [(replicate 20 0, 0), (replicate 20 2, 1)]\<rparr>"

definition paid_store :: "UserState list" where
  "paid_store = [\<lparr>balance = 7025, nonce = 0\<rparr>, \<lparr>balance = 2975, nonce = - 1\<rparr>]"

section \<open>Dictionaries that may share objects\<close>

text \<open>A dictionary operation seen as a change of one entry: the object of the key is
  looked up (and created with balance 0 and nonce -1 if the key is new), then its balance
  and its nonce are moved by the given amounts. Two dictionaries have the same shape when
  they have the same keys in the same order and their references are equal at the same
  places, with equal objects behind them.\<close>

type_synonym delta = "bytes \<times> int \<times> int"

definition valid_refs :: "user_dict \<times> UserState list \<Rightarrow> bool" where
  "valid_refs dh \<longleftrightarrow> (\<forall>r \<in> snd ` set (items (fst dh)). r < length (snd dh))"

definition bump :: "int \<Rightarrow> int \<Rightarrow> UserState \<Rightarrow> UserState" where
  "bump db dn u = \<lparr>balance = balance u + db, nonce = UserState.nonce u + dn\<rparr>"

fun step :: "delta \<Rightarrow> user_dict \<times> UserState list \<Rightarrow> user_dict \<times> UserState list" where
  "step (k, db, dn) (d, h) =
     (case map_of (items d) k of
        Some r \<Rightarrow> (d, h[r := bump db dn (h ! r)])
      | None \<Rightarrow>
          (d\<lparr>items := items d @ [(k, length h)]\<rparr>,
           h @ [bump db dn \<lparr>balance = 0, nonce = - 1\<rparr>]))"

fun negate :: "delta \<Rightarrow> delta" where
  "negate (k, db, dn) = (k, - db, - dn)"

fun touch :: "delta \<Rightarrow> delta" where
  "touch (k, db, dn) = (k, 0, 0)"

definition same_shape :: "user_dict \<times> UserState list \<Rightarrow> user_dict \<times> UserState list \<Rightarrow> bool" where
  "same_shape X Y \<longleftrightarrow>
     has_default (fst X) = has_default (fst Y) \<and>
     map fst (items (fst X)) = map fst (items (fst Y)) \<and>
     valid_refs X \<and> valid_refs Y \<and>
     (\<forall>i < length (items (fst X)). \<forall>j < length (items (fst X)).
        (snd (items (fst X) ! i) = snd (items (fst X) ! j)) =
        (snd (items (fst Y) ! i) = snd (items (fst Y) ! j))) \<and>
     (\<forall>i < length (items (fst X)).
        snd X ! snd (items (fst X) ! i) = snd Y ! snd (items (fst Y) ! i))"

text \<open>The changes that a transaction and a block make, in the order of the code, and
  the states in which every reference points into the store.\<close>

definition tx_deltas :: "bytes \<Rightarrow> 'k Transaction \<Rightarrow> delta list" where
  "tx_deltas m t =
     [(sender_hash t, 0, 0), (m, fee t, 0), (sender_hash t, - amount t, 1),
      (recipient_hash t, amount t - fee t, 0)]"

definition block_deltas :: "'k Block \<Rightarrow> delta list" where
  "block_deltas B = (miner B, 10000, 0) # concat (map (tx_deltas (miner B)) (transactions B))"

definition valid_state :: "BlockchainState \<Rightarrow> 'k heap \<Rightarrow> bool" where
  "valid_state self hp \<longleftrightarrow>
     longest_chain self < length (list_objs hp) \<and>
     valid_refs (user_states self, user_objs hp)"

section \<open>Difficulty retargeting\<close>

lemma sum_list_drop_nth:
  "sum_list (map f (drop k xs)) = (\<Sum>i = k..<length xs. f (xs ! i))"
proof -
  have "sum_list (map f (drop k xs)) = (\<Sum>i = 0..<length xs - k. f (xs ! (k + i)))"
    by (simp add: sum_list_sum_nth)
  also have "\<dots> = (\<Sum>i = k..<length xs. f (xs ! i))"
  proof (cases "k \<le> length xs")
    case True
    then show ?thesis
      using sum.shift_bounds_nat_ivl [of "\<lambda>i. f (xs ! i)" 0 k "length xs - k"]
      by (simp add: add.commute)
  next
    case False
    then show ?thesis by simp
  qed
  finally show ?thesis .
qed

text \<open>
  C6: \<open>calculate_difficulty\<close> returns 1000 for a chain of at most 10 blocks. For a
  longer chain of \<open>n\<close> blocks it returns the sum of the difficulties of the blocks at
  the positions \<open>n - 10\<close> to \<open>n - 1\<close>, floor-divided by the time between the block at
  position \<open>n - 11\<close> and the last block (1 if that time is 0), times 120. For 11
  blocks, all with timestamp 0 and difficulty 1000, it returns 1200000.
\<close>

theorem calculate_difficulty_retarget:
  fixes self :: BlockchainState and hp :: "'k heap"
  defines "chain \<equiv> chain_of self hp"
  defines "n \<equiv> length chain"
  defines "dt \<equiv> timestamp (chain ! (n - 1)) - timestamp (chain ! (n - 11))"
  shows "(n \<le> 10 \<longrightarrow> calculate_difficulty self hp = 1000) \<and>
         (10 < n \<longrightarrow> calculate_difficulty self hp =
            ((\<Sum>i = n - 10..<n. difficulty (chain ! i)) div (if dt = 0 then 1 else dt)) * 120) \<and>
         (n = 11 \<and> (\<forall>b \<in> set chain. timestamp b = 0 \<and> difficulty b = 1000) \<longrightarrow>
            calculate_difficulty self hp = 1200000)"
proof -
  have short: "n \<le> 10 \<longrightarrow> calculate_difficulty self hp = 1000"
    by (simp add: calculate_difficulty_def chain_def n_def)
  have long: "calculate_difficulty self hp =
      ((\<Sum>i = n - 10..<n. difficulty (chain ! i)) div (if dt = 0 then 1 else dt)) * 120"
    if "10 < n"
  proof -
    from that have ne: "chain \<noteq> []" by (auto simp: n_def)
    have "last chain = chain ! (n - 1)"
      using ne by (simp add: last_conv_nth n_def)
    then show ?thesis
      using that
      by (simp add: calculate_difficulty_def Let_def sum_list_drop_nth dt_def
          flip: chain_def n_def)
  qed
  have zero: "calculate_difficulty self hp = 1200000"
    if "n = 11" and all: "\<forall>b \<in> set chain. timestamp b = 0 \<and> difficulty b = 1000"
  proof -
    have "\<forall>i<n. timestamp (chain ! i) = 0 \<and> difficulty (chain ! i) = 1000"
      using all by (simp add: n_def)
    then have "dt = 0" and "(\<Sum>i = n - 10..<n. difficulty (chain ! i)) = 10000"
      using \<open>n = 11\<close> by (simp_all add: dt_def)
    then show ?thesis
      using long \<open>n = 11\<close> by simp
  qed
  show ?thesis
    using short long zero by blast
qed

theorem calculate_difficulty_retarget_witness:
  "calculate_difficulty empty_state (heap_with_chain (replicate 3 example_block)) = 1000 \<and>
   calculate_difficulty empty_state (heap_with_chain (replicate 11 example_block)) = 1200000"
  using calculate_difficulty_retarget [of empty_state "heap_with_chain (replicate 3 example_block)"]
    calculate_difficulty_retarget [of empty_state "heap_with_chain (replicate 11 example_block)"]
  by (simp add: chain_of_def empty_state_def heap_with_chain_def example_block_def)

section \<open>Transaction verification\<close>

lemma verify_True_iff:
  "verify cr t sender_balance sender_previous_nonce = Inr True \<longleftrightarrow>
     verify_conditions cr t sender_balance sender_previous_nonce"
  unfolding verify_def verify_conditions_def txid_hash_def msg_hash_def verify_signature_def
    le8_fields_def sha256_hash_def generate_address_def to_bytes_little_def
  by (auto split: sum.splits if_splits)

lemma verify_not_False:
  "verify cr t sender_balance sender_previous_nonce \<noteq> Inr False"
  unfolding verify_def txid_hash_def msg_hash_def verify_signature_def
    le8_fields_def sha256_hash_def generate_address_def
  by (auto split: sum.splits if_splits)

text \<open>
  C8: \<open>verify\<close> returns \<open>True\<close> exactly when the conditions of the specification
  hold (\<open>verify_conditions\<close>: both hashes of 20 bytes, the sender hash the SHA-1 of the
  encoded key, \<open>0 < amount \<le> sender_balance\<close>, \<open>0 \<le> fee \<le> amount\<close>, the nonce one
  more than the previous one, the identifier equal to the SHA-256 of the fields, and a
  signature that verifies), and it never returns \<open>False\<close>: where a condition fails,
  it raises.
\<close>

theorem verify_succeeds_iff:
  "(verify cr t sender_balance sender_previous_nonce = Inr True \<longleftrightarrow>
      verify_conditions cr t sender_balance sender_previous_nonce) \<and>
   (verify cr t sender_balance sender_previous_nonce = Inr True \<or>
      (\<exists>e. verify cr t sender_balance sender_previous_nonce = Inl e))"
proof -
  have "verify cr t sender_balance sender_previous_nonce = Inr True \<or>
      (\<exists>e. verify cr t sender_balance sender_previous_nonce = Inl e)"
    using verify_not_False [of cr t sender_balance sender_previous_nonce]
    by (cases "verify cr t sender_balance sender_previous_nonce") auto
  then show ?thesis
    using verify_True_iff by blast
qed

theorem verify_succeeds_iff_witness:
  "verify_conditions example_crypto example_transaction 5000 (- 1) \<and>
   \<not> verify_conditions example_crypto example_transaction 2999 (- 1)"
  using verify_succeeds_iff [of example_crypto example_transaction 5000 "- 1"]
    verify_succeeds_iff [of example_crypto example_transaction 2999 "- 1"]
  by (simp add: verify_def example_crypto_def example_transaction_def txid_hash_def msg_hash_def
      verify_signature_def le8_fields_def sha256_hash_def generate_address_def to_bytes_little_def)

section \<open>The proof-of-work test\<close>

lemma pow_target_1000:
  "pow_target 1000 =
     Inr 115792089237316197833978051397173321166213123177384467822762074682102382592"
  by code_simp

lemma gap_digest_value:
  "from_bytes_big gap_digest =
     115792089237316197833978051397173321166213123177384467822762074682102382592"
  by code_simp

lemma pow_target_120:
  "pow_target 120 =
     Inr 964934076977634948471941172914146935927565769370649679310454918542669119488"
  by code_simp

lemma floor_digest_120_value:
  "from_bytes_big floor_digest_120 =
     964934076977634961863091541739065898777249872213671366995479866732609413666"
  by code_simp

lemma pow_test_floor_120: "pow_test floor_digest_120 120 = Inr False"
  by (simp add: pow_test_def pow_target_120 floor_digest_120_value int_le_float_def)

lemma sha256_gap_crypto [simp]: "sha256 gap_crypto b = gap_digest"
  by (simp add: gap_crypto_def)

lemma pow_test_gap: "pow_test gap_digest 1000 = Inr True"
  by (simp add: pow_test_def pow_target_1000 gap_digest_value int_le_float_def)

lemma puzzle_solver_gap:
  "puzzle_solver gap_crypto bd
     115792089237316197833978051397173321166213123177384467822762074682102382592 = Inr 0"
  unfolding puzzle_solver_def
  by (subst puzzle_solver_from.simps) (simp add: gap_digest_value int_le_float_def)

lemma mine_block_gap:
  "mine_block gap_crypto (replicate 32 0) 0 (replicate 20 1) [] 0 1000 = Inr gap_block"
  by (simp add: mine_block_def header_components_def to_bytes_little_def pow_target_1000
      puzzle_solver_gap header_hash_def sha256_hash_def gap_block_def example_block_def)

lemma verify_and_get_changes_gap:
  "verify_and_get_changes gap_crypto gap_block 1000 \<lparr>has_default = False, items = []\<rparr> [] =
     (Inr \<lparr>has_default = True, items = [(replicate 20 1, 0)]\<rparr>,
      [\<lparr>balance = 10000, nonce = - 1\<rparr>])"
  by (simp add: verify_and_get_changes_def header_hash_def header_components_def
      to_bytes_little_def sha256_hash_def gap_block_def example_block_def
      pow_test_gap update_states_def earn_stmt_def getitem_def earn_def)

text \<open>
  C2: the test of the code compares the digest with the double nearest to
  \<open>2 ^ 256 / difficulty\<close>, not with \<open>2 ^ 256 div difficulty\<close>. At difficulty 1000 the
  double is the larger of the two: the digest \<open>gap_digest\<close> passes the test although
  it exceeds \<open>2 ^ 256 div 1000\<close>; where SHA-256 yields it, the mining search stops at
  it and block verification accepts the block that carries it. At difficulty 120 the
  double is the smaller one: the digest that equals \<open>2 ^ 256 div 120\<close> fails the test.
\<close>

theorem pow_test_exceeds_floor:
  "pow_test gap_digest 1000 = Inr True \<and>
   \<not> from_bytes_big gap_digest \<le> 2 ^ 256 div 1000 \<and>
   pow_test floor_digest_120 120 = Inr False \<and>
   from_bytes_big floor_digest_120 \<le> 2 ^ 256 div 120 \<and>
   mine_block gap_crypto (replicate 32 0) 0 (replicate 20 1) [] 0 1000 = Inr gap_block \<and>
   fst (verify_and_get_changes gap_crypto gap_block 1000 \<lparr>has_default = False, items = []\<rparr> []) =
     Inr \<lparr>has_default = True, items = [(replicate 20 1, 0)]\<rparr>"
  by (simp add: pow_test_gap gap_digest_value pow_test_floor_120 floor_digest_120_value
      mine_block_gap verify_and_get_changes_gap)

section \<open>What the dictionary operations leave unchanged\<close>

lemma fresh_from_mono: "fresh_from n dh \<Longrightarrow> m \<le> n \<Longrightarrow> fresh_from m dh"
  by (auto simp: fresh_from_def)

lemma getitem_frame:
  assumes "fresh_from n dh" and "getitem k dh = Inr (r, dh')"
  shows "fresh_from n dh' \<and> n \<le> r \<and> take n (snd dh') = take n (snd dh)"
proof (cases "map_of (items (fst dh)) k")
  case None
  with assms show ?thesis
    by (auto simp: getitem_def fresh_from_def split: if_splits)
next
  case (Some r0)
  then have "(k, r0) \<in> set (items (fst dh))"
    by (rule map_of_SomeD)
  then have "n \<le> r0"
    using assms(1) by (force simp: fresh_from_def)
  with Some assms show ?thesis
    by (simp add: getitem_def)
qed

lemma earn_stmt_frame:
  assumes "fresh_from n dh" and "earn_stmt k a u dh = Inr dh'"
  shows "fresh_from n dh' \<and> take n (snd dh') = take n (snd dh)"
proof -
  from assms(2) obtain r d h where g: "getitem k dh = Inr (r, d, h)"
    and dh': "dh' = (d, h[r := (h ! r)\<lparr>balance := earn (h ! r) a u\<rparr>])"
    by (auto simp: earn_stmt_def split: sum.splits)
  from getitem_frame [OF assms(1) g] show ?thesis
    by (simp add: dh' fresh_from_def)
qed

lemma spend_stmt_frame:
  assumes "fresh_from n dh" and "spend_stmt k a u dh = Inr dh'"
  shows "fresh_from n dh' \<and> take n (snd dh') = take n (snd dh)"
proof -
  from assms(2) obtain r d h b c where g: "getitem k dh = Inr (r, d, h)"
    and dh': "dh' = (d, h[r := (h ! r)\<lparr>balance := b, UserState.nonce := c\<rparr>])"
    by (auto simp: spend_stmt_def split: sum.splits prod.splits)
  from getitem_frame [OF assms(1) g] show ?thesis
    by (simp add: dh' fresh_from_def)
qed

lemma undo_loop_frame:
  "fresh_from n dh \<Longrightarrow> undo_loop m ts dh = (res, h') \<Longrightarrow>
     take n h' = take n (snd dh) \<and> (\<forall>d'. res = Inr d' \<longrightarrow> fresh_from n (d', h'))"
proof (induction ts arbitrary: dh)
  case Nil
  then show ?case by auto
next
  case (Cons t ts)
  show ?case
  proof (cases "earn_stmt m (fee t) True dh")
    case (Inl e)
    with Cons.prems show ?thesis by auto
  next
    case (Inr dh1)
    note f1 = earn_stmt_frame [OF Cons.prems(1) Inr]
    show ?thesis
    proof (cases "spend_stmt (sender_hash t) (amount t) True dh1")
      case (Inl e)
      with Cons.prems Inr f1 show ?thesis by auto
    next
      case dh2: (Inr dh2)
      note f2 = spend_stmt_frame [OF f1 [THEN conjunct1] dh2]
      show ?thesis
      proof (cases "earn_stmt (recipient_hash t) (amount t - fee t) True dh2")
        case (Inl e)
        with Cons.prems Inr dh2 f1 f2 show ?thesis by auto
      next
        case dh3: (Inr dh3)
        note f3 = earn_stmt_frame [OF f2 [THEN conjunct1] dh3]
        from Cons.prems Inr dh2 dh3 have "undo_loop m ts dh3 = (res, h')"
          by simp
        from Cons.IH [OF f3 [THEN conjunct1] this] f1 f2 f3 show ?thesis
          by simp
      qed
    qed
  qed
qed

lemma update_loop_frame:
  "fresh_from n dh \<Longrightarrow> update_loop cr m ts dh = (res, h') \<Longrightarrow>
     take n h' = take n (snd dh) \<and> (\<forall>d'. res = Inr d' \<longrightarrow> fresh_from n (d', h'))"
proof (induction ts arbitrary: dh)
  case Nil
  then show ?case by auto
next
  case (Cons t ts)
  show ?case
  proof (cases "getitem (sender_hash t) dh")
    case (Inl e)
    with Cons.prems show ?thesis by auto
  next
    case (Inr rdh)
    obtain r dh1 where rdh: "rdh = (r, dh1)" by (cases rdh)
    note f0 = getitem_frame [OF Cons.prems(1) Inr [unfolded rdh]]
    show ?thesis
    proof (cases "verify cr t (balance (snd dh1 ! r)) (UserState.nonce (snd dh1 ! r)) = Inr True")
      case False
      with Cons.prems Inr rdh f0 show ?thesis
        by (auto split: sum.splits if_splits)
    next
      case ok: True
      show ?thesis
      proof (cases "earn_stmt m (fee t) False dh1")
        case (Inl e)
        with Cons.prems Inr rdh ok f0 show ?thesis by auto
      next
        case dh2: (Inr dh2)
        note f1 = earn_stmt_frame [OF f0 [THEN conjunct1] dh2]
        show ?thesis
        proof (cases "spend_stmt (sender_hash t) (amount t) False dh2")
          case (Inl e)
          with Cons.prems Inr rdh ok dh2 f0 f1 show ?thesis by auto
        next
          case dh3: (Inr dh3)
          note f2 = spend_stmt_frame [OF f1 [THEN conjunct1] dh3]
          show ?thesis
          proof (cases "earn_stmt (recipient_hash t) (amount t - fee t) False dh3")
            case (Inl e)
            with Cons.prems Inr rdh ok dh2 dh3 f0 f1 f2 show ?thesis by auto
          next
            case dh4: (Inr dh4)
            note f3 = earn_stmt_frame [OF f2 [THEN conjunct1] dh4]
            from Cons.prems Inr rdh ok dh2 dh3 dh4 have "update_loop cr m ts dh4 = (res, h')"
              by simp
            from Cons.IH [OF f3 [THEN conjunct1] this] f0 f1 f2 f3 show ?thesis
              by simp
          qed
        qed
      qed
    qed
  qed
qed

lemma deepcopy_items_frame:
  "deepcopy_items xs memo h = (ys, h') \<Longrightarrow> n \<le> length h \<Longrightarrow>
   \<forall>r' \<in> snd ` set memo. n \<le> r' \<Longrightarrow>
     take n h' = take n h \<and> length h \<le> length h' \<and> (\<forall>r \<in> snd ` set ys. n \<le> r)"
proof (induction xs arbitrary: memo h ys h')
  case Nil
  then show ?case by simp
next
  case (Cons x xs)
  obtain k r where x: "x = (k, r)" by (cases x)
  show ?case
  proof (cases "map_of memo r")
    case None
    obtain zs h1 where rec: "deepcopy_items xs ((r, length h) # memo) (h @ [h ! r]) = (zs, h1)"
      by (cases "deepcopy_items xs ((r, length h) # memo) (h @ [h ! r])")
    with Cons.prems None x have res: "ys = (k, length h) # zs" "h' = h1"
      by auto
    have "take n h1 = take n (h @ [h ! r]) \<and> length (h @ [h ! r]) \<le> length h1 \<and>
        (\<forall>r \<in> snd ` set zs. n \<le> r)"
      using Cons.prems by (intro Cons.IH [OF rec]) auto
    with Cons.prems res show ?thesis by auto
  next
    case (Some r')
    obtain zs h1 where rec: "deepcopy_items xs memo h = (zs, h1)"
      by (cases "deepcopy_items xs memo h")
    with Cons.prems Some x have res: "ys = (k, r') # zs" "h' = h1"
      by auto
    from Some have "(r, r') \<in> set memo" by (rule map_of_SomeD)
    then have "n \<le> r'" using Cons.prems(3) by force
    moreover have "take n h1 = take n h \<and> length h \<le> length h1 \<and> (\<forall>r \<in> snd ` set zs. n \<le> r)"
      using Cons.prems by (intro Cons.IH [OF rec]) auto
    ultimately show ?thesis using res by auto
  qed
qed

lemma deepcopy_dict_frame:
  assumes "deepcopy_dict d h = dh'"
  shows "fresh_from (length h) dh' \<and> take (length h) (snd dh') = h"
proof -
  obtain ys h' where c: "deepcopy_items (items d) [] h = (ys, h')"
    by (cases "deepcopy_items (items d) [] h")
  from deepcopy_items_frame [OF c, of "length h"] assms c show ?thesis
    by (auto simp: deepcopy_dict_def fresh_from_def)
qed

lemma get_changes_for_undo_frame:
  assumes "get_changes_for_undo self d h = (res, h')"
  shows "take (length h) h' = h \<and> (\<forall>d'. res = Inr d' \<longrightarrow> fresh_from (length h) (d', h'))"
proof -
  obtain dh0 where c: "deepcopy_dict d h = dh0" by simp
  note f0 = deepcopy_dict_frame [OF c]
  show ?thesis
  proof (cases "earn_stmt (miner self) 10000 True dh0")
    case (Inl e)
    with assms c f0 show ?thesis
      by (auto simp: get_changes_for_undo_def)
  next
    case (Inr dh1)
    note f1 = earn_stmt_frame [OF f0 [THEN conjunct1] Inr]
    from assms c Inr have "undo_loop (miner self) (transactions self) dh1 = (res, h')"
      by (simp add: get_changes_for_undo_def)
    from undo_loop_frame [OF f1 [THEN conjunct1] this] f0 f1 show ?thesis
      by simp
  qed
qed

section \<open>What the chain operations leave unchanged\<close>

lemma same_prefix_refl [simp]: "same_prefix n m hp hp"
  by (simp add: same_prefix_def)

lemma same_prefix_trans:
  "same_prefix n m hp hp1 \<Longrightarrow> same_prefix n m hp1 hp2 \<Longrightarrow> same_prefix n m hp hp2"
  by (simp add: same_prefix_def)

lemma take_eq_length_le:
  "take n xs = take n ys \<Longrightarrow> n \<le> length ys \<Longrightarrow> n \<le> length xs"
  by (metis length_take min.absorb2 min.cobounded1)

lemma update_states_frame:
  assumes "fresh_from n (d, h)" and "update_states cr self d h = (res, h')"
  shows "take n h' = take n h \<and> (\<forall>d'. res = Inr d' \<longrightarrow> fresh_from n (d', h'))"
proof -
  have f0: "fresh_from n (\<lparr>has_default = True, items = items d\<rparr>, h)"
    using assms(1) by (simp add: fresh_from_def)
  show ?thesis
  proof (cases "earn_stmt (miner self) 10000 False (\<lparr>has_default = True, items = items d\<rparr>, h)")
    case (Inl e)
    with assms show ?thesis by (auto simp: update_states_def)
  next
    case (Inr dh1)
    note f1 = earn_stmt_frame [OF f0 Inr]
    from assms Inr have "update_loop cr (miner self) (transactions self) dh1 = (res, h')"
      by (simp add: update_states_def)
    from update_loop_frame [OF f1 [THEN conjunct1] this] f1 show ?thesis
      by simp
  qed
qed

lemma verify_and_get_changes_frame:
  assumes "fresh_from n (d, h)" and "verify_and_get_changes cr self dfc d h = (res, h')"
  shows "take n h' = take n h \<and> (\<forall>d'. res = Inr d' \<longrightarrow> fresh_from n (d', h'))"
proof (cases "res")
  case (Inl e)
  have "h' = h \<or> update_states cr self d h = (res, h')"
    using assms(2) unfolding verify_and_get_changes_def
    by (auto split: if_splits sum.splits)
  with update_states_frame [OF assms(1)] Inl show ?thesis by auto
next
  case (Inr d')
  have "update_states cr self d h = (res, h')"
    using assms(2) Inr unfolding verify_and_get_changes_def
    by (auto split: if_splits sum.splits)
  with update_states_frame [OF assms(1)] show ?thesis by auto
qed

lemma verify_and_apply_block_frame:
  assumes "private_state n m (self, hp)"
    and "verify_and_apply_block cr block self hp = (res, self', hp')"
  shows "private_state n m (self', hp') \<and> same_prefix n m hp hp'"
proof -
  let ?vg = "verify_and_get_changes cr block (calculate_difficulty self hp) (user_states self)
      (user_objs hp)"
  obtain r uo where vg: "?vg = (r, uo)" by (cases ?vg)
  from assms(1) have f: "fresh_from n (user_states self, user_objs hp)"
    and l: "m \<le> longest_chain self"
    by (simp_all add: private_state_def)
  note fr = verify_and_get_changes_frame [OF f vg]
  have n_le: "n \<le> length uo"
    using fr f by (auto simp: fresh_from_def intro: take_eq_length_le)
  consider (same) "self' = self" "hp' = hp"
    | (err) e where "r = Inl e" "self' = self" "hp' = hp\<lparr>user_objs := uo\<rparr>"
    | (ok) d' where "r = Inr d'"
        "self' = self\<lparr>total_difficulty := total_difficulty self + difficulty block,
                      user_states := d'\<rparr>"
        "hp' = hp\<lparr>user_objs := uo,
                  list_objs := (list_objs hp)[longest_chain self := chain_of self hp @ [block]]\<rparr>"
    using assms(2) vg unfolding verify_and_apply_block_def Let_def
    by (auto split: if_splits sum.splits)
  then show ?thesis
  proof cases
    case same
    with assms(1) show ?thesis by simp
  next
    case err
    with f l fr n_le show ?thesis
      by (simp add: private_state_def same_prefix_def fresh_from_def)
  next
    case ok
    with l fr show ?thesis
      by (simp add: private_state_def same_prefix_def)
  qed
qed

lemma undo_last_block_frame:
  assumes "private_state n m (self, hp)"
    and "undo_last_block self hp = (res, self', hp')"
  shows "private_state n m (self', hp') \<and> same_prefix n m hp hp'"
proof (cases "chain_of self hp = []")
  case True
  with assms show ?thesis by (simp add: undo_last_block_def)
next
  case False
  let ?gc = "get_changes_for_undo (last (chain_of self hp)) (user_states self) (user_objs hp)"
  obtain r uo where gc: "?gc = (r, uo)" by (cases ?gc)
  from assms(1) have f: "fresh_from n (user_states self, user_objs hp)"
    and l: "m \<le> longest_chain self"
    by (simp_all add: private_state_def)
  note fr = get_changes_for_undo_frame [OF gc]
  have n_le: "n \<le> length (user_objs hp)"
    using f by (simp add: fresh_from_def)
  have len: "length (user_objs hp) \<le> length uo"
    using fr by (metis length_take min.cobounded1 min_def order_refl take_all_iff)
  have pre: "take n uo = take n (user_objs hp)"
    using fr n_le by (metis min.absorb1 take_take)
  have self': "self' = (self\<lparr>total_difficulty := total_difficulty self
        - difficulty (last (chain_of self hp))\<rparr>)\<lparr>user_states :=
          (case r of Inl e \<Rightarrow> user_states self | Inr d' \<Rightarrow> d')\<rparr>"
    and hp': "hp' = hp\<lparr>list_objs := (list_objs hp)[longest_chain self := butlast (chain_of self hp)],
        user_objs := uo\<rparr>"
    using assms(2) gc False unfolding undo_last_block_def Let_def
    by (auto split: sum.splits)
  show ?thesis
  proof (cases r)
    case (Inl e)
    with self' hp' f l pre n_le len show ?thesis
      by (simp add: private_state_def same_prefix_def fresh_from_def)
  next
    case (Inr d')
    with fr have "fresh_from n (d', uo)"
      using n_le by (auto intro: fresh_from_mono)
    with Inr self' hp' l pre show ?thesis
      by (simp add: private_state_def same_prefix_def)
  qed
qed

lemma reorg_undo_frame:
  "private_state n m (st, hp) \<Longrightarrow> reorg_undo i split_height st hp = (res, st', hp') \<Longrightarrow>
     private_state n m (st', hp') \<and> same_prefix n m hp hp'"
proof (induction i arbitrary: st hp)
  case 0
  then show ?case by simp
next
  case (Suc i)
  obtain r st1 hp1 where u: "undo_last_block st hp = (r, st1, hp1)"
    by (cases "undo_last_block st hp")
  note f1 = undo_last_block_frame [OF Suc.prems(1) u]
  consider (stop) "st' = st" "hp' = hp"
    | (err) "st' = st1" "hp' = hp1"
    | (go) "reorg_undo i split_height st1 hp1 = (res, st', hp')"
    using Suc.prems(2) u by (auto simp: Let_def split: if_splits sum.splits)
  then show ?case
  proof cases
    case stop
    with Suc.prems(1) show ?thesis by simp
  next
    case err
    with f1 show ?thesis by simp
  next
    case go
    from Suc.IH [OF f1 [THEN conjunct1] go] f1 show ?thesis
      by (auto intro: same_prefix_trans)
  qed
qed

lemma reorg_apply_frame:
  "private_state n m (st, hp) \<Longrightarrow> reorg_apply cr bs st hp = (res, st', hp') \<Longrightarrow>
     private_state n m (st', hp') \<and> same_prefix n m hp hp'"
proof (induction bs arbitrary: st hp)
  case Nil
  then show ?case by simp
next
  case (Cons b bs)
  obtain r st1 hp1 where u: "verify_and_apply_block cr b st hp = (r, st1, hp1)"
    by (cases "verify_and_apply_block cr b st hp")
  note f1 = verify_and_apply_block_frame [OF Cons.prems(1) u]
  consider (err) "st' = st1" "hp' = hp1"
    | (go) "reorg_apply cr bs st1 hp1 = (res, st', hp')"
    using Cons.prems(2) u by (auto split: sum.splits)
  then show ?case
  proof cases
    case err
    with f1 show ?thesis by simp
  next
    case go
    from Cons.IH [OF f1 [THEN conjunct1] go] f1 show ?thesis
      by (auto intro: same_prefix_trans)
  qed
qed

lemma reorg_start_frame:
  assumes "reorg_start old_state hp = (new_state, hp1)"
  shows "private_state (length (user_objs hp)) (length (list_objs hp)) (new_state, hp1) \<and>
         same_prefix (length (user_objs hp)) (length (list_objs hp)) hp hp1"
proof -
  obtain d uo where c: "deepcopy_dict (user_states old_state) (user_objs hp) = (d, uo)"
    by (cases "deepcopy_dict (user_states old_state) (user_objs hp)")
  from deepcopy_dict_frame [OF c] assms c show ?thesis
    by (auto simp: reorg_start_def Let_def private_state_def same_prefix_def)
qed

lemma reorg_replay_frame:
  assumes "reorg_replay cr old_state new_branch hp = (res, st, hp')"
  shows "same_prefix (length (user_objs hp)) (length (list_objs hp)) hp hp'"
proof -
  obtain ns hp1 where s: "reorg_start old_state hp = (ns, hp1)"
    by (cases "reorg_start old_state hp")
  note f0 = reorg_start_frame [OF s]
  show ?thesis
  proof (cases new_branch)
    case Nil
    with assms s f0 show ?thesis by (simp add: reorg_replay_def)
  next
    case (Cons b0 bs)
    obtain r1 st1 hp2 where u: "reorg_undo (length (chain_of ns hp1)) (height b0) ns hp1 = (r1, st1, hp2)"
      by (cases "reorg_undo (length (chain_of ns hp1)) (height b0) ns hp1")
    note f1 = reorg_undo_frame [OF f0 [THEN conjunct1] u]
    show ?thesis
    proof (cases r1)
      case (Inl e)
      with assms s Cons u have "hp' = hp2" by (simp add: reorg_replay_def)
      with f0 f1 show ?thesis by (auto intro: same_prefix_trans)
    next
      case (Inr x)
      with assms s Cons u have "reorg_apply cr new_branch st1 hp2 = (res, st, hp')"
        by (simp add: reorg_replay_def)
      from reorg_apply_frame [OF f1 [THEN conjunct1] this] f0 f1 show ?thesis
        by (auto intro: same_prefix_trans)
    qed
  qed
qed

lemma verify_reorg_frame:
  assumes "verify_reorg cr old_state new_branch hp = (res, hp')"
  shows "take (length (user_objs hp)) (user_objs hp') = user_objs hp \<and>
         take (length (list_objs hp)) (list_objs hp') = list_objs hp"
proof -
  obtain r st hp1 where rp: "reorg_replay cr old_state new_branch hp = (r, st, hp1)"
    by (cases "reorg_replay cr old_state new_branch hp")
  with assms have "hp' = hp1"
    by (auto simp: verify_reorg_def split: sum.splits if_splits)
  with reorg_replay_frame [OF rp] show ?thesis
    by (simp add: same_prefix_def)
qed

section \<open>The total difficulty of a chain\<close>

lemma sum_list_butlast:
  "xs \<noteq> [] \<Longrightarrow> sum_list (map f (butlast xs)) = sum_list (map f xs) - (f (last xs) :: int)"
  by (induction xs) auto

lemma verify_and_apply_block_consistent:
  assumes "chain_consistent self hp"
    and "verify_and_apply_block cr block self hp = (res, self', hp')"
  shows "chain_consistent self' hp'"
proof -
  let ?vg = "verify_and_get_changes cr block (calculate_difficulty self hp) (user_states self)
      (user_objs hp)"
  obtain r uo where vg: "?vg = (r, uo)" by (cases ?vg)
  consider (same) "self' = self" "list_objs hp' = list_objs hp"
    | (ok) d' where
        "self' = self\<lparr>total_difficulty := total_difficulty self + difficulty block,
                      user_states := d'\<rparr>"
        "list_objs hp' = (list_objs hp)[longest_chain self := chain_of self hp @ [block]]"
    using assms(2) vg unfolding verify_and_apply_block_def Let_def
    by (auto split: if_splits sum.splits)
  then show ?thesis
  proof cases
    case same
    with assms(1) show ?thesis by (simp add: chain_consistent_def chain_of_def)
  next
    case ok
    with assms(1) show ?thesis by (simp add: chain_consistent_def chain_of_def)
  qed
qed

lemma undo_last_block_consistent:
  assumes "chain_consistent self hp"
    and "undo_last_block self hp = (res, self', hp')"
  shows "chain_consistent self' hp'"
proof (cases "chain_of self hp = []")
  case True
  with assms show ?thesis by (simp add: undo_last_block_def)
next
  case False
  have "longest_chain self' = longest_chain self"
    and "total_difficulty self' = total_difficulty self - difficulty (last (chain_of self hp))"
    and "list_objs hp' = (list_objs hp)[longest_chain self := butlast (chain_of self hp)]"
    using assms(2) False unfolding undo_last_block_def Let_def
    by (auto split: sum.splits prod.splits)
  with assms(1) False show ?thesis
    by (simp add: chain_consistent_def chain_of_def sum_list_butlast)
qed

lemma reorg_undo_consistent:
  "chain_consistent st hp \<Longrightarrow> reorg_undo i split_height st hp = (res, st', hp') \<Longrightarrow>
     chain_consistent st' hp'"
proof (induction i arbitrary: st hp)
  case 0
  then show ?case by simp
next
  case (Suc i)
  obtain r st1 hp1 where u: "undo_last_block st hp = (r, st1, hp1)"
    by (cases "undo_last_block st hp")
  note c1 = undo_last_block_consistent [OF Suc.prems(1) u]
  consider (stop) "st' = st" "hp' = hp"
    | (err) "st' = st1" "hp' = hp1"
    | (go) "reorg_undo i split_height st1 hp1 = (res, st', hp')"
    using Suc.prems(2) u by (auto simp: Let_def split: if_splits sum.splits)
  then show ?case
  proof cases
    case stop
    with Suc.prems(1) show ?thesis by simp
  next
    case err
    with c1 show ?thesis by simp
  next
    case go
    from Suc.IH [OF c1 go] show ?thesis .
  qed
qed

lemma reorg_apply_consistent:
  "chain_consistent st hp \<Longrightarrow> reorg_apply cr bs st hp = (res, st', hp') \<Longrightarrow>
     chain_consistent st' hp'"
proof (induction bs arbitrary: st hp)
  case Nil
  then show ?case by simp
next
  case (Cons b bs)
  obtain r st1 hp1 where u: "verify_and_apply_block cr b st hp = (r, st1, hp1)"
    by (cases "verify_and_apply_block cr b st hp")
  note c1 = verify_and_apply_block_consistent [OF Cons.prems(1) u]
  consider (err) "st' = st1" "hp' = hp1"
    | (go) "reorg_apply cr bs st1 hp1 = (res, st', hp')"
    using Cons.prems(2) u by (auto split: sum.splits)
  then show ?case
  proof cases
    case err
    with c1 show ?thesis by simp
  next
    case go
    from Cons.IH [OF c1 go] show ?thesis .
  qed
qed

lemma reorg_start_consistent:
  assumes "reorg_start old_state hp = (new_state, hp1)"
    and "total_difficulty old_state = sum_list (map difficulty (chain_of old_state hp))"
  shows "chain_consistent new_state hp1"
  using assms
  by (auto simp: reorg_start_def Let_def chain_consistent_def chain_of_def split: prod.splits)

lemma reorg_replay_consistent:
  assumes "reorg_replay cr old_state new_branch hp = (Inr u, st, hp')"
    and "total_difficulty old_state = sum_list (map difficulty (chain_of old_state hp))"
  shows "total_difficulty st = sum_list (map difficulty (chain_of st hp'))"
proof -
  obtain ns hp1 where s: "reorg_start old_state hp = (ns, hp1)"
    by (cases "reorg_start old_state hp")
  note c0 = reorg_start_consistent [OF s assms(2)]
  from assms(1) s obtain b0 bs where nb: "new_branch = b0 # bs"
    by (cases new_branch) (auto simp: reorg_replay_def)
  obtain r1 st1 hp2 where
    ru: "reorg_undo (length (chain_of ns hp1)) (height b0) ns hp1 = (r1, st1, hp2)"
    by (cases "reorg_undo (length (chain_of ns hp1)) (height b0) ns hp1")
  note c1 = reorg_undo_consistent [OF c0 ru]
  from assms(1) s nb ru have "reorg_apply cr new_branch st1 hp2 = (Inr u, st, hp')"
    by (auto simp: reorg_replay_def split: sum.splits)
  from reorg_apply_consistent [OF c1 this] show ?thesis
    by (simp add: chain_consistent_def)
qed

section \<open>Mined blocks pass the checks of the header\<close>

lemma puzzle_solver_from_sound:
  "puzzle_solver_from cr bd target c = Inr n \<Longrightarrow>
     0 \<le> n \<and> n < 2 ^ 64 \<and>
     int_le_float (from_bytes_big (sha256 cr (bd @ le_digits 8 n))) target"
proof (induction cr bd target c rule: puzzle_solver_from.induct)
  case (1 cr bd target c)
  show ?case
  proof (cases "c < 0 \<or> 2 ^ 64 \<le> c")
    case True
    with "1.prems" show ?thesis
      by (subst (asm) puzzle_solver_from.simps) simp
  next
    case False
    show ?thesis
    proof (cases "int_le_float (from_bytes_big (sha256 cr (bd @ le_digits 8 c))) target")
      case True
      with False "1.prems" have "n = c"
        by (subst (asm) puzzle_solver_from.simps) simp
      with True False show ?thesis by simp
    next
      case nt: False
      with False "1.prems" have "puzzle_solver_from cr bd target (c + 1) = Inr n"
        by (subst (asm) puzzle_solver_from.simps) simp
      with "1.IH" False nt show ?thesis by simp
    qed
  qed
qed

lemma mine_block_sound:
  assumes "mine_block cr prev hgt mnr txs ts dfc = Inr block"
  shows "previous block = prev \<and> height block = hgt \<and> miner block = mnr \<and>
         transactions block = txs \<and> timestamp block = ts \<and> difficulty block = dfc \<and>
         header_hash cr prev mnr txs ts dfc (Block.nonce block) = Inr (block_id block) \<and>
         pow_test (block_id block) dfc = Inr True"
proof -
  from assms obtain cs target nnc bid where
    cs: "header_components prev mnr txs ts dfc = Inr cs"
    and tg: "pow_target dfc = Inr target"
    and ps: "puzzle_solver cr (sha256_unfinalized cs) target = Inr nnc"
    and hh: "header_hash cr prev mnr txs ts dfc nnc = Inr bid"
    and b: "block = \<lparr>previous = prev, height = hgt, miner = mnr, transactions = txs,
              timestamp = ts, difficulty = dfc, block_id = bid, nonce = nnc\<rparr>"
    by (auto simp: mine_block_def split: sum.splits)
  from puzzle_solver_from_sound [OF ps [unfolded puzzle_solver_def]]
  have rng: "0 \<le> nnc" "nnc < 2 ^ 64"
    and le: "int_le_float (from_bytes_big (sha256 cr (sha256_unfinalized cs @ le_digits 8 nnc))) target"
    by simp_all
  from hh cs rng have "bid = sha256 cr (sha256_unfinalized cs @ le_digits 8 nnc)"
    by (simp add: header_hash_def to_bytes_little_def sha256_hash_def sha256_unfinalized_def)
  with le tg hh b show ?thesis
    by (simp add: pow_test_def)
qed

section \<open>The dictionary operations on the account map\<close>

lemma map_of_distinct_snd:
  assumes "distinct (map snd xs)" and "map_of xs k = Some r" and "map_of xs k' = Some r"
  shows "k = k'"
proof -
  from assms(2,3) have "(k, r) \<in> set xs" "(k', r) \<in> set xs"
    by (auto dest: map_of_SomeD)
  moreover from assms(1) have "inj_on snd (set xs)"
    by (simp add: distinct_map)
  ultimately have "(k, r) = (k', r)"
    by (intro inj_onD [of snd "set xs"]) simp_all
  then show ?thesis by simp
qed

lemma sum_list_update_ref:
  assumes "distinct (map snd xs)" and "(k, r) \<in> set xs"
  shows "sum_list (map (\<lambda>kr. f (h[r := u] ! snd kr)) xs) =
         sum_list (map (\<lambda>kr. f (h ! snd kr)) xs) - f (h ! r) + (f (h[r := u] ! r) :: int)"
  using assms
proof (induction xs)
  case Nil
  then show ?case by simp
next
  case (Cons x xs)
  show ?case
  proof (cases "x = (k, r)")
    case True
    with Cons.prems have "\<forall>y \<in> set xs. r \<noteq> snd y" by force
    then have "sum_list (map (\<lambda>kr. f (h[r := u] ! snd kr)) xs) =
        sum_list (map (\<lambda>kr. f (h ! snd kr)) xs)"
      by (intro arg_cong [where f = sum_list] map_cong) simp_all
    with True show ?thesis by simp
  next
    case False
    with Cons.prems have in_xs: "(k, r) \<in> set xs"
      by simp
    then have "r \<in> snd ` set xs" by force
    with Cons.prems have "snd x \<noteq> r" by auto
    with Cons.IH in_xs Cons.prems show ?thesis by simp
  qed
qed

text \<open>Writing to the object of the key \<open>k\<close>.\<close>

lemma store_update_sem:
  assumes wf: "wf_dict (d, h)" and k: "map_of (items d) k = Some r"
  shows "wf_dict (d, h[r := u]) \<and> view (d, h[r := u]) = (view (d, h))(k := u) \<and>
         total_balance (d, h[r := u]) = total_balance (d, h) - balance (h ! r) + balance u"
proof -
  from k have mem: "(k, r) \<in> set (items d)" by (rule map_of_SomeD)
  with wf have r: "r < length h" by (force simp: wf_dict_def)
  have "view (d, h[r := u]) k' = ((view (d, h))(k := u)) k'" for k'
  proof (cases "map_of (items d) k'")
    case None
    with k show ?thesis by (auto simp: view_def)
  next
    case (Some r')
    show ?thesis
    proof (cases "k' = k")
      case True
      with k r show ?thesis by (simp add: view_def)
    next
      case False
      with map_of_distinct_snd [of "items d" k' r k] wf Some k have "r' \<noteq> r"
        by (auto simp: wf_dict_def)
      with Some False show ?thesis by (simp add: view_def)
    qed
  qed
  then have "view (d, h[r := u]) = (view (d, h))(k := u)" by (rule ext)
  moreover have "total_balance (d, h[r := u]) = total_balance (d, h) - balance (h ! r) + balance u"
    using sum_list_update_ref [of "items d" k r balance h u] wf mem r
    by (simp add: total_balance_def wf_dict_def)
  ultimately show ?thesis
    using wf by (simp add: wf_dict_def)
qed

text \<open>Looking a key up in a \<open>defaultdict\<close>.\<close>

lemma getitem_sem:
  assumes wf: "wf_dict dh" and dflt: "has_default (fst dh)"
  shows "\<exists>r dh'. getitem k dh = Inr (r, dh') \<and> wf_dict dh' \<and> has_default (fst dh') \<and>
           map_of (items (fst dh')) k = Some r \<and> view dh' = view dh \<and>
           snd dh' ! r = view dh k \<and> total_balance dh' = total_balance dh"
proof (cases "map_of (items (fst dh)) k")
  case (Some r)
  with assms show ?thesis
    by (simp add: getitem_def view_def)
next
  case None
  let ?d = "(fst dh)\<lparr>items := items (fst dh) @ [(k, length (snd dh))]\<rparr>"
  let ?h = "snd dh @ [\<lparr>balance = 0, nonce = - 1\<rparr>]"
  from None have notin: "k \<notin> fst ` set (items (fst dh))"
    by (simp add: map_of_eq_None_iff)
  have valid: "\<forall>r \<in> snd ` set (items (fst dh)). r < length (snd dh)"
    using wf by (simp add: wf_dict_def)
  have g: "getitem k dh = Inr (length (snd dh), ?d, ?h)"
    using None dflt by (simp add: getitem_def)
  have w: "wf_dict (?d, ?h)"
    using wf notin valid by (auto simp: wf_dict_def)
  have m: "map_of (items ?d) k = Some (length (snd dh))"
    using None by (simp add: map_add_def)
  have "view (?d, ?h) k' = view dh k'" for k'
  proof (cases "map_of (items (fst dh)) k'")
    case None
    then show ?thesis
      by (cases "k' = k") (simp_all add: view_def map_add_def)
  next
    case (Some r')
    then have "(k', r') \<in> set (items (fst dh))" by (rule map_of_SomeD)
    with valid have "r' < length (snd dh)" by force
    with Some show ?thesis
      by (simp add: view_def map_add_def nth_append)
  qed
  then have v: "view (?d, ?h) = view dh" by (rule ext)
  have "sum_list (map (\<lambda>kr. balance (?h ! snd kr)) (items (fst dh))) =
      sum_list (map (\<lambda>kr. balance (snd dh ! snd kr)) (items (fst dh)))"
    using valid by (intro arg_cong [where f = sum_list] map_cong) (auto simp: nth_append)
  then have t: "total_balance (?d, ?h) = total_balance dh"
    by (simp add: total_balance_def)
  have "?h ! length (snd dh) = view dh k"
    using None by (simp add: view_def)
  with g w m v t dflt show ?thesis by simp
qed

lemma earn_stmt_sem:
  assumes wf: "wf_dict dh" and dflt: "has_default (fst dh)"
  shows "\<exists>dh'. earn_stmt k a undo dh = Inr dh' \<and> wf_dict dh' \<and> has_default (fst dh') \<and>
           view dh' = adjust k (if undo then - a else a) 0 (view dh) \<and>
           total_balance dh' = total_balance dh + (if undo then - a else a)"
proof -
  from getitem_sem [OF assms, of k] obtain r d h where
    g: "getitem k dh = Inr (r, d, h)" and w: "wf_dict (d, h)" and df: "has_default d"
    and m: "map_of (items d) k = Some r" and v: "view (d, h) = view dh"
    and o: "h ! r = view dh k" and t: "total_balance (d, h) = total_balance dh"
    by auto
  let ?u = "(h ! r)\<lparr>balance := earn (h ! r) a undo\<rparr>"
  from store_update_sem [OF w m, of ?u] g df v o t show ?thesis
    by (auto simp: earn_stmt_def adjust_def earn_def fun_upd_def)
qed

lemma spend_stmt_sem:
  assumes wf: "wf_dict dh" and dflt: "has_default (fst dh)"
  shows "\<exists>dh'. spend_stmt k a undo dh = Inr dh' \<and> wf_dict dh' \<and> has_default (fst dh') \<and>
           view dh' = adjust k (if undo then a else - a) (if undo then - 1 else 1) (view dh) \<and>
           total_balance dh' = total_balance dh + (if undo then a else - a)"
proof -
  from getitem_sem [OF assms, of k] obtain r d h where
    g: "getitem k dh = Inr (r, d, h)" and w: "wf_dict (d, h)" and df: "has_default d"
    and m: "map_of (items d) k = Some r" and v: "view (d, h) = view dh"
    and o: "h ! r = view dh k" and t: "total_balance (d, h) = total_balance dh"
    by auto
  let ?u = "(h ! r)\<lparr>balance := fst (spend (h ! r) a undo),
      UserState.nonce := snd (spend (h ! r) a undo)\<rparr>"
  from store_update_sem [OF w m, of ?u] g df v o t show ?thesis
    by (auto simp: spend_stmt_def adjust_def spend_def fun_upd_def)
qed

section \<open>The loops on the account map\<close>

lemma credit_adjust: "credit a x P = adjust a x 0 P"
  by (cases "P a") (simp add: credit_def adjust_def)

lemma debit_adjust: "debit a x P = adjust a (- x) 1 P"
  by (cases "P a") (simp add: debit_def adjust_def)

lemma view_default_dict [simp]:
  "view (\<lparr>has_default = b, items = items d\<rparr>, h) = view (d, h)"
  by (rule ext) (simp add: view_def split: option.splits)

lemma update_loop_sem:
  "wf_dict dh \<Longrightarrow> has_default (fst dh) \<Longrightarrow> update_loop cr m ts dh = (res, h') \<Longrightarrow>
     (\<forall>e. res = Inl e \<longrightarrow> transition_loop cr m ts (view dh) = Inl e) \<and>
     (\<forall>d'. res = Inr d' \<longrightarrow>
        wf_dict (d', h') \<and> has_default d' \<and>
        transition_loop cr m ts (view dh) = Inr (view (d', h')) \<and>
        total_balance (d', h') = total_balance dh)"
proof (induction ts arbitrary: dh)
  case Nil
  then show ?case by auto
next
  case (Cons t ts)
  from getitem_sem [OF Cons.prems(1,2), of "sender_hash t"] obtain r dh1 where
    g: "getitem (sender_hash t) dh = Inr (r, dh1)" and w1: "wf_dict dh1"
    and d1: "has_default (fst dh1)" and v1: "view dh1 = view dh"
    and o1: "snd dh1 ! r = view dh (sender_hash t)" and t1: "total_balance dh1 = total_balance dh"
    by auto
  let ?v = "verify cr t (balance (view dh (sender_hash t)))
      (UserState.nonce (view dh (sender_hash t)))"
  show ?case
  proof (cases ?v)
    case (Inl e)
    with Cons.prems(3) g o1 show ?thesis by auto
  next
    case (Inr ok)
    with verify_not_False [of cr t] have ok: "?v = Inr True"
      by (cases ok) auto
    from earn_stmt_sem [OF w1 d1, of m "fee t" False] obtain dh2 where
      e2: "earn_stmt m (fee t) False dh1 = Inr dh2" and w2: "wf_dict dh2"
      and d2: "has_default (fst dh2)" and v2: "view dh2 = adjust m (fee t) 0 (view dh1)"
      and t2: "total_balance dh2 = total_balance dh1 + fee t"
      by auto
    from spend_stmt_sem [OF w2 d2, of "sender_hash t" "amount t" False] obtain dh3 where
      e3: "spend_stmt (sender_hash t) (amount t) False dh2 = Inr dh3" and w3: "wf_dict dh3"
      and d3: "has_default (fst dh3)"
      and v3: "view dh3 = adjust (sender_hash t) (- amount t) 1 (view dh2)"
      and t3: "total_balance dh3 = total_balance dh2 - amount t"
      by auto
    from earn_stmt_sem [OF w3 d3, of "recipient_hash t" "amount t - fee t" False] obtain dh4 where
      e4: "earn_stmt (recipient_hash t) (amount t - fee t) False dh3 = Inr dh4"
      and w4: "wf_dict dh4" and d4: "has_default (fst dh4)"
      and v4: "view dh4 = adjust (recipient_hash t) (amount t - fee t) 0 (view dh3)"
      and t4: "total_balance dh4 = total_balance dh3 + (amount t - fee t)"
      by auto
    from Cons.prems(3) g o1 ok e2 e3 e4 have rec: "update_loop cr m ts dh4 = (res, h')"
      by simp
    have step: "transition_loop cr m (t # ts) (view dh) = transition_loop cr m ts (view dh4)"
      using ok v1 v2 v3 v4 by (simp add: credit_adjust debit_adjust)
    have tot: "total_balance dh4 = total_balance dh"
      using t1 t2 t3 t4 by simp
    from Cons.IH [OF w4 d4 rec] step tot show ?thesis
      by simp
  qed
qed

lemma update_states_sem:
  assumes "wf_dict (d, h)" and "update_states cr B d h = (res, h')"
  shows "(\<forall>e. res = Inl e \<longrightarrow> state_transition cr B (view (d, h)) = Inl e) \<and>
         (\<forall>d'. res = Inr d' \<longrightarrow>
            wf_dict (d', h') \<and> has_default d' \<and>
            state_transition cr B (view (d, h)) = Inr (view (d', h')) \<and>
            total_balance (d', h') = total_balance (d, h) + 10000)"
proof -
  let ?d0 = "\<lparr>has_default = True, items = items d\<rparr>"
  have w0: "wf_dict (?d0, h)" and d0: "has_default (fst (?d0, h))"
    and t0: "total_balance (?d0, h) = total_balance (d, h)"
    using assms(1) by (simp_all add: wf_dict_def total_balance_def)
  from earn_stmt_sem [OF w0 d0, of "miner B" 10000 False] obtain dh1 where
    e1: "earn_stmt (miner B) 10000 False (?d0, h) = Inr dh1" and w1: "wf_dict dh1"
    and d1: "has_default (fst dh1)" and v1: "view dh1 = adjust (miner B) 10000 0 (view (d, h))"
    and t1: "total_balance dh1 = total_balance (d, h) + 10000"
    using t0 by auto
  from assms(2) e1 have "update_loop cr (miner B) (transactions B) dh1 = (res, h')"
    by (simp add: update_states_def)
  from update_loop_sem [OF w1 d1 this] v1 t1 show ?thesis
    by (simp add: state_transition_def credit_adjust)
qed

lemma undo_loop_sem:
  "wf_dict dh \<Longrightarrow> has_default (fst dh) \<Longrightarrow>
     \<exists>d' h'. undo_loop m ts dh = (Inr d', h') \<and> wf_dict (d', h') \<and> has_default d' \<and>
        view (d', h') = undo_effect m ts (view dh)"
proof (induction ts arbitrary: dh)
  case Nil
  then show ?case by simp
next
  case (Cons t ts)
  from earn_stmt_sem [OF Cons.prems, of m "fee t" True] obtain dh1 where
    e1: "earn_stmt m (fee t) True dh = Inr dh1" and w1: "wf_dict dh1"
    and d1: "has_default (fst dh1)" and v1: "view dh1 = adjust m (- fee t) 0 (view dh)"
    by auto
  from spend_stmt_sem [OF w1 d1, of "sender_hash t" "amount t" True] obtain dh2 where
    e2: "spend_stmt (sender_hash t) (amount t) True dh1 = Inr dh2" and w2: "wf_dict dh2"
    and d2: "has_default (fst dh2)"
    and v2: "view dh2 = adjust (sender_hash t) (amount t) (- 1) (view dh1)"
    by auto
  from earn_stmt_sem [OF w2 d2, of "recipient_hash t" "amount t - fee t" True] obtain dh3 where
    e3: "earn_stmt (recipient_hash t) (amount t - fee t) True dh2 = Inr dh3"
    and w3: "wf_dict dh3" and d3: "has_default (fst dh3)"
    and v3: "view dh3 = adjust (recipient_hash t) (- (amount t - fee t)) 0 (view dh2)"
    by auto
  from Cons.IH [OF w3 d3] e1 e2 e3 v1 v2 v3 show ?case
    by simp
qed

lemma transition_loop_effect:
  "transition_loop cr m ts P = Inr P' \<Longrightarrow> P' = apply_effect m ts P"
  by (induction ts arbitrary: P) (auto simp: credit_adjust debit_adjust split: sum.splits)

lemma adjust_commute:
  "adjust a x n (adjust b y k P) = adjust b y k (adjust a x n P)"
  by (rule ext) (simp add: adjust_def)

lemma adjust_inverse: "adjust a (- x) (- n) (adjust a x n P) = P"
  by (rule ext) (simp add: adjust_def)

lemma adjust_apply_effect:
  "adjust a x n (apply_effect m ts P) = apply_effect m ts (adjust a x n P)"
proof (induction ts arbitrary: P)
  case Nil
  then show ?case by simp
next
  case (Cons t ts)
  have "adjust a x n (apply_effect m (t # ts) P) =
      apply_effect m ts (adjust a x n (adjust (recipient_hash t) (amount t - fee t) 0
          (adjust (sender_hash t) (- amount t) 1 (adjust m (fee t) 0 P))))"
    by (simp add: Cons.IH)
  also have "\<dots> = apply_effect m (t # ts) (adjust a x n P)"
    by (simp add: adjust_commute [of a x n])
  finally show ?case .
qed

lemma undo_apply_effect: "undo_effect m ts (apply_effect m ts P) = P"
proof (induction ts arbitrary: P)
  case Nil
  then show ?case by simp
next
  case (Cons t ts)
  let ?P1 = "adjust (recipient_hash t) (amount t - fee t) 0
      (adjust (sender_hash t) (- amount t) 1 (adjust m (fee t) 0 P))"
  have inv: "adjust (recipient_hash t) (- (amount t - fee t)) 0
      (adjust (sender_hash t) (amount t) (- 1) (adjust m (- fee t) 0 ?P1)) = P"
  proof -
    have "adjust m (- fee t) 0 ?P1 = adjust (recipient_hash t) (amount t - fee t) 0
        (adjust (sender_hash t) (- amount t) 1 (adjust m (- fee t) (- 0) (adjust m (fee t) 0 P)))"
      by (simp add: adjust_commute [of m "- fee t" 0])
    also have "\<dots> = adjust (recipient_hash t) (amount t - fee t) 0
        (adjust (sender_hash t) (- amount t) 1 P)"
      by (simp only: adjust_inverse)
    finally have 1: "adjust m (- fee t) 0 ?P1 = adjust (recipient_hash t) (amount t - fee t) 0
        (adjust (sender_hash t) (- amount t) 1 P)" .
    have "adjust (sender_hash t) (amount t) (- 1) (adjust (recipient_hash t) (amount t - fee t) 0
        (adjust (sender_hash t) (- amount t) 1 P)) =
      adjust (recipient_hash t) (amount t - fee t) 0
        (adjust (sender_hash t) (- (- amount t)) (- 1) (adjust (sender_hash t) (- amount t) 1 P))"
      by (simp add: adjust_commute [of "sender_hash t" "amount t" "- 1"])
    also have "\<dots> = adjust (recipient_hash t) (amount t - fee t) 0 P"
      by (simp only: adjust_inverse)
    finally have 2: "adjust (sender_hash t) (amount t) (- 1)
        (adjust (recipient_hash t) (amount t - fee t) 0
          (adjust (sender_hash t) (- amount t) 1 P)) =
        adjust (recipient_hash t) (amount t - fee t) 0 P" .
    have 3: "adjust (recipient_hash t) (- (amount t - fee t)) 0
        (adjust (recipient_hash t) (amount t - fee t) 0 P) = P"
      using adjust_inverse [of "recipient_hash t" "amount t - fee t" 0 P] by simp
    show ?thesis by (simp only: 1 2 3)
  qed
  have "undo_effect m (t # ts) (apply_effect m (t # ts) P) =
      undo_effect m ts (adjust (recipient_hash t) (- (amount t - fee t)) 0
        (adjust (sender_hash t) (amount t) (- 1) (adjust m (- fee t) 0 (apply_effect m ts ?P1))))"
    by simp
  also have "\<dots> = undo_effect m ts (apply_effect m ts
      (adjust (recipient_hash t) (- (amount t - fee t)) 0
        (adjust (sender_hash t) (amount t) (- 1) (adjust m (- fee t) 0 ?P1))))"
    by (simp only: adjust_apply_effect)
  also have "\<dots> = undo_effect m ts (apply_effect m ts P)"
    by (simp only: inv)
  also have "\<dots> = P"
    by (rule Cons.IH)
  finally show ?case .
qed

lemma undo_reward_apply_effect:
  "undo_effect m ts (adjust m (- 10000) 0 (apply_effect m ts (adjust m 10000 0 P))) = P"
proof -
  have "adjust m (- 10000) 0 (apply_effect m ts (adjust m 10000 0 P)) =
      apply_effect m ts (adjust m (- 10000) (- 0) (adjust m 10000 0 P))"
    by (simp add: adjust_apply_effect)
  also have "\<dots> = apply_effect m ts P"
    by (simp only: adjust_inverse)
  finally show ?thesis
    by (simp add: undo_apply_effect)
qed

section \<open>Copying and undoing on the account map\<close>

lemma deepcopy_items_unshared:
  "distinct (map snd xs) \<Longrightarrow> snd ` set xs \<inter> fst ` set memo = {} \<Longrightarrow>
   \<forall>r \<in> snd ` set xs. r < length h \<Longrightarrow>
     deepcopy_items xs memo h =
       (zip (map fst xs) [length h..<length h + length xs], h @ map (\<lambda>kr. h ! snd kr) xs)"
proof (induction xs arbitrary: memo h)
  case Nil
  then show ?case by simp
next
  case (Cons x xs)
  obtain k r where x: "x = (k, r)" by (cases x)
  from Cons.prems(2) x have "r \<notin> fst ` set memo" by auto
  then have none: "map_of memo r = None"
    by (simp add: map_of_eq_None_iff)
  let ?h1 = "h @ [h ! r]"
  have valid: "\<forall>r' \<in> snd ` set xs. r' < length h"
    using Cons.prems(3) by simp
  have 1: "distinct (map snd xs)"
    using Cons.prems(1) by simp
  have 2: "snd ` set xs \<inter> fst ` set ((r, length h) # memo) = {}"
    using Cons.prems(1,2) x by auto
  have 3: "\<forall>r' \<in> snd ` set xs. r' < length ?h1"
    using valid by auto
  have same: "map (\<lambda>kr. ?h1 ! snd kr) xs = map (\<lambda>kr. h ! snd kr) xs"
    using valid by (intro map_cong) (auto simp: nth_append)
  have rec: "deepcopy_items xs ((r, length h) # memo) ?h1 =
      (zip (map fst xs) [length ?h1..<length ?h1 + length xs], ?h1 @ map (\<lambda>kr. h ! snd kr) xs)"
    using Cons.IH [OF 1 2 3] by (simp only: same)
  have upt: "[length h..<length h + length (x # xs)] =
      length h # [length ?h1..<length ?h1 + length xs]"
    by (subst upt_rec) (simp del: upt_Suc)
  show ?case
    unfolding x deepcopy_items.simps none option.case rec prod.case upt [unfolded x]
    by simp
qed

lemma deepcopy_dict_sem:
  assumes wf: "wf_dict (d, h)" and c: "deepcopy_dict d h = dh'"
  shows "wf_dict dh' \<and> has_default (fst dh') = has_default d \<and> view dh' = view (d, h)"
proof -
  let ?xs = "items d"
  let ?n = "length h"
  let ?ys = "zip (map fst ?xs) [?n..<?n + length ?xs]"
  let ?h' = "h @ map (\<lambda>kr. h ! snd kr) ?xs"
  from wf have dk: "distinct (map fst ?xs)" and dr: "distinct (map snd ?xs)"
    and valid: "\<forall>r \<in> snd ` set ?xs. r < ?n"
    by (simp_all add: wf_dict_def)
  from deepcopy_items_unshared [OF dr _ valid, of "[]"] c
  have dh': "dh' = (d\<lparr>items := ?ys\<rparr>, ?h')"
    by (simp add: deepcopy_dict_def)
  have w: "wf_dict (d\<lparr>items := ?ys\<rparr>, ?h')"
    using dk by (auto simp: wf_dict_def dest: set_zip_rightD)
  have "view (d\<lparr>items := ?ys\<rparr>, ?h') k = view (d, h) k" for k
  proof (cases "map_of ?xs k")
    case None
    then have "k \<notin> set (map fst ?xs)"
      by (simp add: map_of_eq_None_iff)
    then have mz: "map_of ?ys k = None"
      by (subst map_of_zip_is_None) simp_all
    have iy: "items (fst (d\<lparr>items := ?ys\<rparr>, ?h')) = ?ys"
      by simp
    show ?thesis
      unfolding view_def iy mz using None by simp
  next
    case (Some r)
    then have "(k, r) \<in> set ?xs" by (rule map_of_SomeD)
    then obtain i where i: "i < length ?xs" "?xs ! i = (k, r)"
      by (auto simp: in_set_conv_nth)
    have "map_of ?ys (map fst ?xs ! i) = Some ([?n..<?n + length ?xs] ! i)"
      using dk i(1) by (intro map_of_zip_nth) simp_all
    with i have "map_of ?ys k = Some (?n + i)"
      by simp
    with Some i show ?thesis
      by (simp add: view_def nth_append)
  qed
  then have "view (d\<lparr>items := ?ys\<rparr>, ?h') = view (d, h)" by (rule ext)
  with w dh' show ?thesis by simp
qed

lemma get_changes_for_undo_sem:
  assumes wf: "wf_dict (d, h)" and dflt: "has_default d"
  shows "\<exists>d' h'. get_changes_for_undo B d h = (Inr d', h') \<and> wf_dict (d', h') \<and>
           has_default d' \<and>
           view (d', h') =
             undo_effect (miner B) (transactions B) (adjust (miner B) (- 10000) 0 (view (d, h)))"
proof -
  obtain dh0 where c: "deepcopy_dict d h = dh0" by simp
  from deepcopy_dict_sem [OF wf c] dflt have w0: "wf_dict dh0" and d0: "has_default (fst dh0)"
    and v0: "view dh0 = view (d, h)"
    by simp_all
  from earn_stmt_sem [OF w0 d0, of "miner B" 10000 True] obtain dh1 where
    e1: "earn_stmt (miner B) 10000 True dh0 = Inr dh1" and w1: "wf_dict dh1"
    and d1: "has_default (fst dh1)" and v1: "view dh1 = adjust (miner B) (- 10000) 0 (view dh0)"
    by auto
  from undo_loop_sem [OF w1 d1, of "miner B" "transactions B"] c e1 v0 v1 show ?thesis
    by (simp add: get_changes_for_undo_def)
qed

lemma verify_and_get_changes_accepts:
  assumes "verify_and_get_changes cr B dfc d h = (Inr d', h')"
  shows "update_states cr B d h = (Inr d', h')"
  using assms unfolding verify_and_get_changes_def
  by (auto split: if_splits sum.splits)

section \<open>Well-formed states stay well-formed\<close>

text \<open>
  The dictionaries that the code builds give every address an object of its own: the
  empty dictionary does, and \<open>verify_and_apply_block\<close>, \<open>undo_last_block\<close> and
  \<open>verify_reorg\<close> keep it so, whether they return or raise.
\<close>

lemma wf_dict_store:
  "wf_dict (d, h) \<Longrightarrow> length h \<le> length h' \<Longrightarrow> wf_dict (d, h')"
  by (auto simp: wf_dict_def)

lemma getitem_wf:
  assumes "wf_dict dh" and "getitem k dh = Inr (r, dh')"
  shows "wf_dict dh' \<and> length (snd dh) \<le> length (snd dh')"
proof (cases "map_of (items (fst dh)) k")
  case (Some r0)
  with assms show ?thesis by (simp add: getitem_def)
next
  case None
  with assms(2) have dflt: "has_default (fst dh)"
    and len: "length (snd dh) \<le> length (snd dh')"
    by (auto simp: getitem_def split: if_splits)
  from getitem_sem [OF assms(1) dflt, of k] assms(2) have "wf_dict dh'"
    by auto
  with len show ?thesis by simp
qed

lemma earn_stmt_wf:
  assumes "wf_dict dh" and "earn_stmt k a u dh = Inr dh'"
  shows "wf_dict dh' \<and> length (snd dh) \<le> length (snd dh')"
proof -
  from assms(2) obtain r d h where g: "getitem k dh = Inr (r, d, h)"
    and dh': "dh' = (d, h[r := (h ! r)\<lparr>balance := earn (h ! r) a u\<rparr>])"
    by (auto simp: earn_stmt_def split: sum.splits)
  from getitem_wf [OF assms(1) g] show ?thesis
    by (simp add: dh' wf_dict_def)
qed

lemma spend_stmt_wf:
  assumes "wf_dict dh" and "spend_stmt k a u dh = Inr dh'"
  shows "wf_dict dh' \<and> length (snd dh) \<le> length (snd dh')"
proof -
  from assms(2) obtain r d h b c where g: "getitem k dh = Inr (r, d, h)"
    and dh': "dh' = (d, h[r := (h ! r)\<lparr>balance := b, UserState.nonce := c\<rparr>])"
    by (auto simp: spend_stmt_def split: sum.splits prod.splits)
  from getitem_wf [OF assms(1) g] show ?thesis
    by (simp add: dh' wf_dict_def)
qed

lemma undo_loop_wf:
  "wf_dict dh \<Longrightarrow> undo_loop m ts dh = (res, h') \<Longrightarrow>
     length (snd dh) \<le> length h' \<and> (\<forall>d'. res = Inr d' \<longrightarrow> wf_dict (d', h'))"
proof (induction ts arbitrary: dh)
  case Nil
  then show ?case by auto
next
  case (Cons t ts)
  show ?case
  proof (cases "earn_stmt m (fee t) True dh")
    case (Inl e)
    with Cons.prems show ?thesis by auto
  next
    case (Inr dh1)
    note f1 = earn_stmt_wf [OF Cons.prems(1) Inr]
    show ?thesis
    proof (cases "spend_stmt (sender_hash t) (amount t) True dh1")
      case (Inl e)
      with Cons.prems Inr f1 show ?thesis by auto
    next
      case dh2: (Inr dh2)
      note f2 = spend_stmt_wf [OF f1 [THEN conjunct1] dh2]
      show ?thesis
      proof (cases "earn_stmt (recipient_hash t) (amount t - fee t) True dh2")
        case (Inl e)
        with Cons.prems Inr dh2 f1 f2 show ?thesis by auto
      next
        case dh3: (Inr dh3)
        note f3 = earn_stmt_wf [OF f2 [THEN conjunct1] dh3]
        from Cons.prems Inr dh2 dh3 have "undo_loop m ts dh3 = (res, h')"
          by simp
        from Cons.IH [OF f3 [THEN conjunct1] this] f1 f2 f3 show ?thesis
          by simp
      qed
    qed
  qed
qed

lemma update_loop_length:
  "wf_dict dh \<Longrightarrow> update_loop cr m ts dh = (res, h') \<Longrightarrow> length (snd dh) \<le> length h'"
proof (induction ts arbitrary: dh)
  case Nil
  then show ?case by auto
next
  case (Cons t ts)
  show ?case
  proof (cases "getitem (sender_hash t) dh")
    case (Inl e)
    with Cons.prems show ?thesis by auto
  next
    case (Inr rdh)
    obtain r dh1 where rdh: "rdh = (r, dh1)" by (cases rdh)
    note f0 = getitem_wf [OF Cons.prems(1) Inr [unfolded rdh]]
    show ?thesis
    proof (cases "verify cr t (balance (snd dh1 ! r)) (UserState.nonce (snd dh1 ! r)) = Inr True")
      case False
      with Cons.prems Inr rdh f0 show ?thesis
        by (auto split: sum.splits if_splits)
    next
      case ok: True
      show ?thesis
      proof (cases "earn_stmt m (fee t) False dh1")
        case (Inl e)
        with Cons.prems Inr rdh ok f0 show ?thesis by auto
      next
        case dh2: (Inr dh2)
        note f1 = earn_stmt_wf [OF f0 [THEN conjunct1] dh2]
        show ?thesis
        proof (cases "spend_stmt (sender_hash t) (amount t) False dh2")
          case (Inl e)
          with Cons.prems Inr rdh ok dh2 f0 f1 show ?thesis by auto
        next
          case dh3: (Inr dh3)
          note f2 = spend_stmt_wf [OF f1 [THEN conjunct1] dh3]
          show ?thesis
          proof (cases "earn_stmt (recipient_hash t) (amount t - fee t) False dh3")
            case (Inl e)
            with Cons.prems Inr rdh ok dh2 dh3 f0 f1 f2 show ?thesis by auto
          next
            case dh4: (Inr dh4)
            note f3 = earn_stmt_wf [OF f2 [THEN conjunct1] dh4]
            from Cons.prems Inr rdh ok dh2 dh3 dh4 have "update_loop cr m ts dh4 = (res, h')"
              by simp
            from Cons.IH [OF f3 [THEN conjunct1] this] f0 f1 f2 f3 show ?thesis
              by simp
          qed
        qed
      qed
    qed
  qed
qed

lemma update_states_length:
  assumes "wf_dict (d, h)" and "update_states cr B d h = (res, h')"
  shows "length h \<le> length h'"
proof -
  let ?d0 = "\<lparr>has_default = True, items = items d\<rparr>"
  have w0: "wf_dict (?d0, h)"
    using assms(1) by (simp add: wf_dict_def)
  show ?thesis
  proof (cases "earn_stmt (miner B) 10000 False (?d0, h)")
    case (Inl e)
    with assms(2) show ?thesis by (simp add: update_states_def)
  next
    case (Inr dh1)
    note f1 = earn_stmt_wf [OF w0 Inr]
    from assms(2) Inr have "update_loop cr (miner B) (transactions B) dh1 = (res, h')"
      by (simp add: update_states_def)
    from update_loop_length [OF f1 [THEN conjunct1] this] f1 show ?thesis
      by simp
  qed
qed

lemma get_changes_for_undo_wf:
  assumes "wf_dict (d, h)" and "get_changes_for_undo B d h = (res, h')"
  shows "length h \<le> length h' \<and> (\<forall>d'. res = Inr d' \<longrightarrow> wf_dict (d', h'))"
proof -
  obtain dh0 where c: "deepcopy_dict d h = dh0" by simp
  from deepcopy_dict_sem [OF assms(1) c] have w0: "wf_dict dh0"
    by simp
  have l0: "length h \<le> length (snd dh0)"
    using deepcopy_dict_frame [OF c] by (simp add: fresh_from_def)
  show ?thesis
  proof (cases "earn_stmt (miner B) 10000 True dh0")
    case (Inl e)
    with assms(2) c l0 show ?thesis
      by (auto simp: get_changes_for_undo_def)
  next
    case (Inr dh1)
    note f1 = earn_stmt_wf [OF w0 Inr]
    from assms(2) c Inr have "undo_loop (miner B) (transactions B) dh1 = (res, h')"
      by (simp add: get_changes_for_undo_def)
    from undo_loop_wf [OF f1 [THEN conjunct1] this] f1 l0 show ?thesis
      by simp
  qed
qed

lemma verify_and_apply_block_wf:
  assumes "wf_state self hp"
    and "verify_and_apply_block cr block self hp = (res, self', hp')"
  shows "wf_state self' hp'"
proof -
  let ?vg = "verify_and_get_changes cr block (calculate_difficulty self hp) (user_states self)
      (user_objs hp)"
  obtain r uo where vg: "?vg = (r, uo)" by (cases ?vg)
  from assms(1) have l: "longest_chain self < length (list_objs hp)"
    and w: "wf_dict (user_states self, user_objs hp)"
    by (simp_all add: wf_state_def)
  have us: "uo = user_objs hp \<or>
      update_states cr block (user_states self) (user_objs hp) = (r, uo)"
    using vg unfolding verify_and_get_changes_def
    by (auto split: if_splits sum.splits)
  then have len: "length (user_objs hp) \<le> length uo"
    using update_states_length [OF w] by auto
  consider (same) "self' = self" "hp' = hp"
    | (err) e where "r = Inl e" "self' = self" "hp' = hp\<lparr>user_objs := uo\<rparr>"
    | (ok) d' where "r = Inr d'"
        "self' = self\<lparr>total_difficulty := total_difficulty self + difficulty block,
                      user_states := d'\<rparr>"
        "hp' = hp\<lparr>user_objs := uo,
                  list_objs := (list_objs hp)[longest_chain self := chain_of self hp @ [block]]\<rparr>"
    using assms(2) vg unfolding verify_and_apply_block_def Let_def
    by (auto split: if_splits sum.splits)
  then show ?thesis
  proof cases
    case same
    with assms(1) show ?thesis by simp
  next
    case err
    with l wf_dict_store [OF w len] show ?thesis
      by (simp add: wf_state_def)
  next
    case ok
    with vg have "update_states cr block (user_states self) (user_objs hp) = (Inr d', uo)"
      by (simp add: verify_and_get_changes_accepts)
    from update_states_sem [OF w this] ok l show ?thesis
      by (simp add: wf_state_def)
  qed
qed

lemma undo_last_block_wf:
  assumes "wf_state self hp"
    and "undo_last_block self hp = (res, self', hp')"
  shows "wf_state self' hp'"
proof (cases "chain_of self hp = []")
  case True
  with assms show ?thesis by (simp add: undo_last_block_def)
next
  case False
  let ?gc = "get_changes_for_undo (last (chain_of self hp)) (user_states self) (user_objs hp)"
  obtain r uo where gc: "?gc = (r, uo)" by (cases ?gc)
  from assms(1) have l: "longest_chain self < length (list_objs hp)"
    and w: "wf_dict (user_states self, user_objs hp)"
    by (simp_all add: wf_state_def)
  note g = get_changes_for_undo_wf [OF w gc]
  have self': "longest_chain self' = longest_chain self"
    "user_states self' = (case r of Inl e \<Rightarrow> user_states self | Inr d' \<Rightarrow> d')"
    and hp': "hp' = hp\<lparr>list_objs := (list_objs hp)[longest_chain self := butlast (chain_of self hp)],
        user_objs := uo\<rparr>"
    using assms(2) gc False unfolding undo_last_block_def Let_def
    by (auto split: sum.splits)
  show ?thesis
  proof (cases r)
    case (Inl e)
    with self' hp' l wf_dict_store [OF w g [THEN conjunct1]] show ?thesis
      by (simp add: wf_state_def)
  next
    case (Inr d')
    with self' hp' l g show ?thesis
      by (simp add: wf_state_def)
  qed
qed

lemma reorg_undo_wf:
  "wf_state st hp \<Longrightarrow> reorg_undo i split_height st hp = (res, st', hp') \<Longrightarrow> wf_state st' hp'"
proof (induction i arbitrary: st hp)
  case 0
  then show ?case by simp
next
  case (Suc i)
  obtain r st1 hp1 where u: "undo_last_block st hp = (r, st1, hp1)"
    by (cases "undo_last_block st hp")
  note c1 = undo_last_block_wf [OF Suc.prems(1) u]
  consider (stop) "st' = st" "hp' = hp"
    | (err) "st' = st1" "hp' = hp1"
    | (go) "reorg_undo i split_height st1 hp1 = (res, st', hp')"
    using Suc.prems(2) u by (auto simp: Let_def split: if_splits sum.splits)
  then show ?case
  proof cases
    case stop
    with Suc.prems(1) show ?thesis by simp
  next
    case err
    with c1 show ?thesis by simp
  next
    case go
    from Suc.IH [OF c1 go] show ?thesis .
  qed
qed

lemma reorg_apply_wf:
  "wf_state st hp \<Longrightarrow> reorg_apply cr bs st hp = (res, st', hp') \<Longrightarrow> wf_state st' hp'"
proof (induction bs arbitrary: st hp)
  case Nil
  then show ?case by simp
next
  case (Cons b bs)
  obtain r st1 hp1 where u: "verify_and_apply_block cr b st hp = (r, st1, hp1)"
    by (cases "verify_and_apply_block cr b st hp")
  note c1 = verify_and_apply_block_wf [OF Cons.prems(1) u]
  consider (err) "st' = st1" "hp' = hp1"
    | (go) "reorg_apply cr bs st1 hp1 = (res, st', hp')"
    using Cons.prems(2) u by (auto split: sum.splits)
  then show ?case
  proof cases
    case err
    with c1 show ?thesis by simp
  next
    case go
    from Cons.IH [OF c1 go] show ?thesis .
  qed
qed

lemma reorg_start_wf:
  assumes "wf_dict (user_states old_state, user_objs hp)"
    and "reorg_start old_state hp = (new_state, hp1)"
  shows "wf_state new_state hp1"
proof -
  obtain d uo where c: "deepcopy_dict (user_states old_state) (user_objs hp) = (d, uo)"
    by (cases "deepcopy_dict (user_states old_state) (user_objs hp)")
  from deepcopy_dict_sem [OF assms(1) c] assms(2) c show ?thesis
    by (auto simp: reorg_start_def Let_def wf_state_def)
qed

lemma verify_reorg_wf:
  assumes "wf_dict (user_states old_state, user_objs hp)"
    and "verify_reorg cr old_state new_branch hp = (Inr new_state, hp')"
  shows "wf_state new_state hp'"
proof -
  from assms(2) obtain u where rp: "reorg_replay cr old_state new_branch hp = (Inr u, new_state, hp')"
    by (auto simp: verify_reorg_def split: prod.splits sum.splits if_splits)
  obtain ns hp1 where s: "reorg_start old_state hp = (ns, hp1)"
    by (cases "reorg_start old_state hp")
  note w0 = reorg_start_wf [OF assms(1) s]
  from rp s obtain b0 bs where nb: "new_branch = b0 # bs"
    by (cases new_branch) (auto simp: reorg_replay_def)
  obtain r1 st1 hp2 where
    ru: "reorg_undo (length (chain_of ns hp1)) (height b0) ns hp1 = (r1, st1, hp2)"
    by (cases "reorg_undo (length (chain_of ns hp1)) (height b0) ns hp1")
  note w1 = reorg_undo_wf [OF w0 ru]
  from rp s nb ru have "reorg_apply cr new_branch st1 hp2 = (Inr u, new_state, hp')"
    by (auto simp: reorg_replay_def split: sum.splits)
  from reorg_apply_wf [OF w1 this] show ?thesis .
qed

section \<open>Runs on the example values\<close>

lemma from_bytes_big_zero: "from_bytes_big (replicate 32 0) = 0"
  by code_simp

lemma pow_test_zero_1000: "pow_test (replicate 32 0) 1000 = Inr True"
  by (simp add: pow_test_def pow_target_1000 from_bytes_big_zero int_le_float_def)

lemma example_header_hash:
  "header_hash example_crypto p m txs 0 1000 0 = Inr (replicate 32 0)"
  by (simp add: header_hash_def header_components_def to_bytes_little_def sha256_hash_def
      example_crypto_def)

lemma example_get_changes_for_undo:
  "get_changes_for_undo example_block \<lparr>has_default = True, items = [(replicate 20 1, 0)]\<rparr>
      [\<lparr>balance = 10000, nonce = - 1\<rparr>] =
     (Inr \<lparr>has_default = True, items = [(replicate 20 1, 1)]\<rparr>,
      [\<lparr>balance = 10000, nonce = - 1\<rparr>, \<lparr>balance = 0, nonce = - 1\<rparr>])"
  by (simp add: get_changes_for_undo_def deepcopy_dict_def earn_stmt_def getitem_def earn_def
      example_block_def)

lemma example_reorg_fails:
  "verify_reorg example_crypto one_block_state [example_block] one_block_heap =
     (Inl (AssertionError ''New chain has lower total difficulty than old chain''),
      \<lparr>user_objs = [\<lparr>balance = 10000, nonce = - 1\<rparr>, \<lparr>balance = 10000, nonce = - 1\<rparr>,
                    \<lparr>balance = 10000, nonce = - 1\<rparr>],
       list_objs = [[example_block], [example_block]]\<rparr>)"
  by (simp add: verify_reorg_def reorg_replay_def reorg_start_def one_block_state_def
      one_block_heap_def chain_of_def deepcopy_dict_def undo_last_block_def
      get_changes_for_undo_def earn_stmt_def getitem_def earn_def
      verify_and_apply_block_def calculate_difficulty_def verify_and_get_changes_def
      example_header_hash pow_test_zero_1000 update_states_def Let_def
      example_block_def)

lemma example_reorg_succeeds:
  "verify_reorg example_crypto empty_state [example_block] (heap_with_chain []) =
     (Inr \<lparr>longest_chain = 1,
           user_states = \<lparr>has_default = True, items = [(replicate 20 1, 0)]\<rparr>,
           total_difficulty = 1000\<rparr>,
      \<lparr>user_objs = [\<lparr>balance = 10000, nonce = - 1\<rparr>], list_objs = [[], [example_block]]\<rparr>)"
  by (simp add: verify_reorg_def reorg_replay_def reorg_start_def empty_state_def
      heap_with_chain_def chain_of_def deepcopy_dict_def
      earn_stmt_def getitem_def earn_def
      verify_and_apply_block_def calculate_difficulty_def verify_and_get_changes_def
      example_header_hash pow_test_zero_1000 update_states_def Let_def
      example_block_def)

lemma example_replay:
  "reorg_replay example_crypto one_block_state [example_block] one_block_heap =
     (Inr (),
      \<lparr>longest_chain = 1,
       user_states = \<lparr>has_default = True, items = [(replicate 20 1, 2)]\<rparr>,
       total_difficulty = 1000\<rparr>,
      \<lparr>user_objs = [\<lparr>balance = 10000, nonce = - 1\<rparr>, \<lparr>balance = 10000, nonce = - 1\<rparr>,
                    \<lparr>balance = 10000, nonce = - 1\<rparr>],
       list_objs = [[example_block], [example_block]]\<rparr>)"
  by (simp add: reorg_replay_def reorg_start_def one_block_state_def
      one_block_heap_def chain_of_def deepcopy_dict_def undo_last_block_def
      get_changes_for_undo_def earn_stmt_def getitem_def earn_def
      verify_and_apply_block_def calculate_difficulty_def verify_and_get_changes_def
      example_header_hash pow_test_zero_1000 update_states_def Let_def
      example_block_def)

lemma example_puzzle_solver: "puzzle_solver example_crypto bd
    115792089237316197833978051397173321166213123177384467822762074682102382592 = Inr 0"
  unfolding puzzle_solver_def
  by (subst puzzle_solver_from.simps)
     (simp add: example_crypto_def from_bytes_big_zero int_le_float_def)

lemma example_mine_bad_block:
  "mine_block example_crypto (replicate 32 0) 1 (replicate 20 1) [bad_transaction] 0 1000 =
     Inr bad_block"
  by (simp add: mine_block_def header_components_def to_bytes_little_def pow_target_1000
      example_puzzle_solver example_header_hash bad_block_def example_block_def)

lemma example_difficulty: "calculate_difficulty one_block_state one_block_heap = 1000"
  by (simp add: calculate_difficulty_def chain_of_def one_block_state_def one_block_heap_def)

lemma example_chain: "chain_of one_block_state one_block_heap = [example_block]"
  by (simp add: chain_of_def one_block_state_def one_block_heap_def)

lemma example_verify:
  "verify example_crypto example_transaction 10000 (- 1) = Inr True"
  by (simp add: verify_def example_crypto_def example_transaction_def txid_hash_def msg_hash_def
      verify_signature_def le8_fields_def sha256_hash_def generate_address_def to_bytes_little_def)

lemma example_update_states:
  "update_states example_crypto paying_block funded_dict [\<lparr>balance = 0, nonce = - 1\<rparr>] =
     (Inr paid_dict, paid_store)"
proof -
  have t: "transactions paying_block = [example_transaction]" "miner paying_block = replicate 20 0"
    by (simp_all add: paying_block_def)
  have f: "sender_hash example_transaction = replicate 20 0"
    "recipient_hash example_transaction = replicate 20 2"
    "amount example_transaction = 3000" "fee example_transaction = 25"
    by (simp_all add: example_transaction_def)
  show ?thesis
    by (simp add: update_states_def t f funded_dict_def earn_stmt_def spend_stmt_def getitem_def
        earn_def spend_def example_verify paid_dict_def paid_store_def)
qed

lemma example_update_states_fails:
  "update_states example_crypto bad_block funded_dict [\<lparr>balance = 0, nonce = - 1\<rparr>] =
     (Inl (AssertionError ''Sender hash should should be 20 bytes long''),
      [\<lparr>balance = 0, nonce = - 1\<rparr>, \<lparr>balance = 10000, nonce = - 1\<rparr>, \<lparr>balance = 0, nonce = - 1\<rparr>])"
  by (simp add: update_states_def bad_block_def example_block_def bad_transaction_def
      example_transaction_def funded_dict_def earn_stmt_def getitem_def earn_def verify_def)

lemma example_verify_and_get_changes:
  "verify_and_get_changes example_crypto paying_block 1000 funded_dict
      [\<lparr>balance = 0, nonce = - 1\<rparr>] = (Inr paid_dict, paid_store)"
proof -
  have "difficulty paying_block = 1000" "block_id paying_block = replicate 32 0"
    "timestamp paying_block = 0" "Block.nonce paying_block = 0"
    "length (transactions paying_block) \<le> 25" "length (miner paying_block) = 20"
    by (simp_all add: paying_block_def example_block_def)
  then show ?thesis
    by (simp add: verify_and_get_changes_def example_header_hash pow_test_zero_1000
        example_update_states)
qed

lemma funded_wf: "wf_dict (funded_dict, [\<lparr>balance = 0, nonce = - 1\<rparr>])"
  by (simp add: wf_dict_def funded_dict_def)

lemma example_apply_paying_block:
  "verify_and_apply_block example_crypto paying_block funded_state funded_heap =
     (Inr (), \<lparr>longest_chain = 0, user_states = paid_dict, total_difficulty = 1000\<rparr>,
      \<lparr>user_objs = paid_store, list_objs = [[paying_block]]\<rparr>)"
proof -
  have c: "chain_of funded_state funded_heap = []"
    by (simp add: chain_of_def funded_state_def funded_heap_def)
  have d: "calculate_difficulty funded_state funded_heap = 1000"
    by (simp add: calculate_difficulty_def c)
  have b: "height paying_block = 0" "previous paying_block = replicate 32 0"
    "difficulty paying_block = 1000"
    by (simp_all add: paying_block_def example_block_def)
  have s: "user_states funded_state = funded_dict"
    "user_objs funded_heap = [\<lparr>balance = 0, nonce = - 1\<rparr>]"
    by (simp_all add: funded_state_def funded_heap_def)
  show ?thesis
    by (simp add: verify_and_apply_block_def c d b s example_verify_and_get_changes)
       (simp add: funded_state_def funded_heap_def)
qed

lemma funded_wf_state: "wf_state funded_state funded_heap"
  using funded_wf by (simp add: wf_state_def funded_state_def funded_heap_def)

section \<open>Changes of entries, with sharing\<close>

lemma bump_zero [simp]: "bump 0 0 u = u"
  by (simp add: bump_def)

lemma bump_negate [simp]: "bump (- db) (- dn) (bump db dn u) = u"
  by (simp add: bump_def)

lemma bump_commute: "bump a b (bump c d u) = bump c d (bump a b u)"
  by (simp add: bump_def)

lemma update_balance: "u\<lparr>balance := x\<rparr> = \<lparr>balance = x, nonce = UserState.nonce u\<rparr>"
  by (cases u) simp

lemma update_balance_nonce: "u\<lparr>balance := x, UserState.nonce := n\<rparr> = \<lparr>balance = x, nonce = n\<rparr>"
  by (cases u) simp

lemma earn_stmt_step:
  "has_default (fst dh) \<Longrightarrow>
     earn_stmt k a undo dh = Inr (step (k, if undo then - a else a, 0) dh)"
  by (cases dh)
    (auto simp: earn_stmt_def getitem_def earn_def bump_def update_balance split: option.splits)

lemma spend_stmt_step:
  "has_default (fst dh) \<Longrightarrow>
     spend_stmt k a undo dh =
       Inr (step (k, if undo then a else - a, if undo then - 1 else 1) dh)"
  by (cases dh)
    (auto simp: spend_stmt_def getitem_def spend_def bump_def update_balance_nonce
       split: option.splits)

lemma getitem_step:
  "has_default (fst dh) \<Longrightarrow>
     \<exists>r. getitem k dh = Inr (r, step (k, 0, 0) dh) \<and>
         map_of (items (fst (step (k, 0, 0) dh))) k = Some r"
  by (cases dh) (auto simp: getitem_def map_add_def split: option.splits)

lemma step_default [simp]: "has_default (fst (step a dh)) = has_default (fst dh)"
  by (cases a; cases dh) (auto split: option.splits)

lemma step_valid: "valid_refs dh \<Longrightarrow> valid_refs (step a dh)"
  by (cases a; cases dh) (auto simp: valid_refs_def less_Suc_eq split: option.splits)

lemma step_keys:
  "fst ` set (items (fst (step a dh))) = insert (fst a) (fst ` set (items (fst dh)))"
proof (cases a; cases dh)
  fix k db dn d h
  assume a: "a = (k, db, dn)" and dh: "dh = (d, h)"
  show ?thesis
  proof (cases "map_of (items d) k")
    case None
    with a dh show ?thesis by auto
  next
    case (Some r)
    then have "k \<in> fst ` set (items d)"
      by (metis domI dom_map_of_conv_image_fst)
    with Some a dh show ?thesis by auto
  qed
qed

lemma map_of_present:
  "k \<in> fst ` set xs \<Longrightarrow> \<exists>r. map_of xs k = Some r \<and> r \<in> snd ` set xs"
  by (metis domD dom_map_of_conv_image_fst image_eqI map_of_SomeD snd_conv)

lemma step_present:
  assumes "map_of (items d) k = Some r"
  shows "step (k, db, dn) (d, h) = (d, h[r := bump db dn (h ! r)])"
  using assms by simp

lemma step_commute:
  assumes v: "valid_refs dh" and p: "fst a \<in> fst ` set (items (fst dh))"
  shows "step a (step b dh) = step b (step a dh)"
proof -
  obtain ka da na where a: "a = (ka, da, na)" by (cases a)
  obtain kb db nb where b: "b = (kb, db, nb)" by (cases b)
  obtain d h where dh: "dh = (d, h)" by (cases dh)
  from p a dh obtain ra where ra: "map_of (items d) ka = Some ra" "ra \<in> snd ` set (items d)"
    using map_of_present [of ka "items d"] by auto
  with v dh have ra_lt: "ra < length h"
    by (auto simp: valid_refs_def)
  show ?thesis
  proof (cases "map_of (items d) kb")
    case (Some rb)
    then have "rb \<in> snd ` set (items d)"
      by (metis image_eqI map_of_SomeD snd_conv)
    with v dh have rb_lt: "rb < length h"
      by (auto simp: valid_refs_def)
    show ?thesis
    proof (cases "ra = rb")
      case True
      with ra Some ra_lt show ?thesis
        by (simp add: a b dh bump_commute [of da na])
    next
      case False
      with ra Some ra_lt rb_lt show ?thesis
        by (simp add: a b dh list_update_swap [of ra rb])
    qed
  next
    case None
    with ra have neq: "ka \<noteq> kb" by auto
    with ra None ra_lt show ?thesis
      by (simp add: a b dh map_add_def nth_append list_update_append1)
  qed
qed

lemma step_negate:
  assumes v: "valid_refs dh"
  shows "step (negate a) (step a dh) = step (touch a) dh"
proof -
  obtain k db dn where a: "a = (k, db, dn)" by (cases a)
  obtain d h where dh: "dh = (d, h)" by (cases dh)
  show ?thesis
  proof (cases "map_of (items d) k")
    case (Some r)
    then have "r \<in> snd ` set (items d)"
      by (metis image_eqI map_of_SomeD snd_conv)
    with v dh have "r < length h"
      by (auto simp: valid_refs_def)
    with Some show ?thesis
      by (simp add: a dh)
  next
    case None
    then show ?thesis
      by (simp add: a dh map_add_def)
  qed
qed

lemma fold_step_valid: "valid_refs dh \<Longrightarrow> valid_refs (fold step ops dh)"
  by (induction ops arbitrary: dh) (simp_all add: step_valid)

lemma fold_step_default [simp]:
  "has_default (fst (fold step ops dh)) = has_default (fst dh)"
  by (induction ops arbitrary: dh) simp_all

lemma fold_step_keys:
  "fst ` set (items (fst (fold step ops dh))) = fst ` set ops \<union> fst ` set (items (fst dh))"
  by (induction ops arbitrary: dh) (auto simp: step_keys)

lemma fold_step_commute:
  "valid_refs dh \<Longrightarrow> fst a \<in> fst ` set (items (fst dh)) \<Longrightarrow>
     step a (fold step ops dh) = fold step ops (step a dh)"
proof (induction ops arbitrary: dh)
  case Nil
  then show ?case by simp
next
  case (Cons b ops)
  have "step a (fold step (b # ops) dh) = step a (fold step ops (step b dh))"
    by simp
  also have "\<dots> = fold step ops (step a (step b dh))"
    using Cons.IH [of "step b dh"] Cons.prems by (simp add: step_valid step_keys)
  also have "\<dots> = fold step ops (step b (step a dh))"
    by (rule arg_cong [OF step_commute [OF Cons.prems]])
  finally show ?case by simp
qed

lemma negate_key [simp]: "fst (negate a) = fst a"
  by (cases a) simp

lemma fold_step_negate:
  "valid_refs dh \<Longrightarrow>
     fold step (map negate ops) (fold step ops dh) = fold step (map touch ops) dh"
proof (induction ops arbitrary: dh)
  case Nil
  then show ?case by simp
next
  case (Cons a ops)
  have v1: "valid_refs (step a dh)"
    using Cons.prems by (rule step_valid)
  have "fold step (map negate (a # ops)) (fold step (a # ops) dh) =
      fold step (map negate ops) (step (negate a) (fold step ops (step a dh)))"
    by simp
  also have "step (negate a) (fold step ops (step a dh)) =
      fold step ops (step (negate a) (step a dh))"
    using fold_step_commute [of "step a dh" "negate a" ops] v1 by (simp add: step_keys)
  also have "step (negate a) (step a dh) = step (touch a) dh"
    using Cons.prems by (rule step_negate)
  also have "fold step (map negate ops) (fold step ops (step (touch a) dh)) =
      fold step (map touch ops) (step (touch a) dh)"
    using Cons.IH [of "step (touch a) dh"] Cons.prems by (simp add: step_valid)
  finally show ?case by simp
qed

lemma view_touch:
  assumes "valid_refs dh"
  shows "view (step (touch a) dh) = view dh"
proof -
  obtain k db dn where a: "a = (k, db, dn)" by (cases a)
  obtain d h where dh: "dh = (d, h)" by (cases dh)
  show ?thesis
  proof (cases "map_of (items d) k")
    case (Some r)
    then show ?thesis by (simp add: a dh)
  next
    case None
    have "view (d\<lparr>items := items d @ [(k, length h)]\<rparr>, h @ [\<lparr>balance = 0, nonce = - 1\<rparr>]) k' =
        view (d, h) k'" for k'
    proof (cases "map_of (items d) k'")
      case n: None
      then show ?thesis
        by (cases "k' = k") (simp_all add: view_def map_add_def)
    next
      case (Some r')
      then have "r' \<in> snd ` set (items d)"
        by (metis image_eqI map_of_SomeD snd_conv)
      with assms dh have "r' < length h"
        by (auto simp: valid_refs_def)
      with Some show ?thesis
        by (simp add: view_def map_add_def nth_append)
    qed
    then have "view (d\<lparr>items := items d @ [(k, length h)]\<rparr>,
        h @ [\<lparr>balance = 0, nonce = - 1\<rparr>]) = view (d, h)"
      by (rule ext)
    with None show ?thesis by (simp add: a dh)
  qed
qed

lemma view_touches:
  "valid_refs dh \<Longrightarrow> view (fold step (map touch ops) dh) = view dh"
  by (induction ops arbitrary: dh) (simp_all add: view_touch step_valid)

lemma view_apply_then_negate:
  "valid_refs dh \<Longrightarrow> view (fold step (map negate ops) (fold step ops dh)) = view dh"
  by (simp add: fold_step_negate view_touches)

section \<open>Dictionaries of the same shape\<close>

lemma map_of_same_keys:
  "map fst xs = map fst ys \<Longrightarrow>
     (map_of xs k = None \<longrightarrow> map_of ys k = None) \<and>
     (\<forall>r. map_of xs k = Some r \<longrightarrow>
        (\<exists>i < length xs. snd (xs ! i) = r \<and> map_of ys k = Some (snd (ys ! i))))"
proof (induction xs arbitrary: ys)
  case Nil
  then show ?case by simp
next
  case (Cons x xs)
  from Cons.prems obtain y ys' where ys: "ys = y # ys'" and k: "fst x = fst y"
    and rest: "map fst xs = map fst ys'"
    by (cases ys) auto
  show ?case
  proof (cases "fst x = k")
    case True
    have "map_of (x # xs) k = Some (snd x)" "map_of (y # ys') k = Some (snd y)"
      using True k by (cases x; cases y; simp)+
    then show ?thesis
      unfolding ys by (intro conjI allI impI) (simp, intro exI [of _ 0], simp)
  next
    case False
    then have mx: "map_of (x # xs) k = map_of xs k" and my: "map_of (y # ys') k = map_of ys' k"
      using k by (cases x; cases y; simp)+
    from Cons.IH [OF rest] have
      none: "map_of xs k = None \<longrightarrow> map_of ys' k = None" and
      some: "\<forall>r. map_of xs k = Some r \<longrightarrow>
        (\<exists>i < length xs. snd (xs ! i) = r \<and> map_of ys' k = Some (snd (ys' ! i)))"
      by simp_all
    have "\<exists>i < length (x # xs). snd ((x # xs) ! i) = r \<and>
        map_of (y # ys') k = Some (snd ((y # ys') ! i))"
      if "map_of (x # xs) k = Some r" for r
    proof -
      from that have "map_of xs k = Some r"
        by (simp only: mx)
      with some obtain i where "i < length xs" "snd (xs ! i) = r"
        "map_of ys' k = Some (snd (ys' ! i))"
        by blast
      then show ?thesis
        unfolding my by (intro exI [of _ "Suc i"]) simp
    qed
    with none mx my show ?thesis
      unfolding ys by simp
  qed
qed

lemma same_shape_view:
  assumes "same_shape X Y"
  shows "view X = view Y"
proof (rule ext)
  fix k
  note l = map_of_same_keys [of "items (fst X)" "items (fst Y)" k]
  from assms have keys: "map fst (items (fst X)) = map fst (items (fst Y))"
    and vals: "\<forall>i < length (items (fst X)).
        snd X ! snd (items (fst X) ! i) = snd Y ! snd (items (fst Y) ! i)"
    by (simp_all add: same_shape_def)
  show "view X k = view Y k"
  proof (cases "map_of (items (fst X)) k")
    case None
    with l [OF keys] show ?thesis by (simp add: view_def)
  next
    case (Some r)
    with l [OF keys] obtain i where "i < length (items (fst X))"
      "snd (items (fst X) ! i) = r" "map_of (items (fst Y)) k = Some (snd (items (fst Y) ! i))"
      by auto
    with Some vals show ?thesis by (auto simp: view_def)
  qed
qed

lemma same_shape_step:
  assumes s: "same_shape X Y"
  shows "same_shape (step a X) (step a Y)"
proof -
  obtain k db dn where a: "a = (k, db, dn)" by (cases a)
  obtain d h where X: "X = (d, h)" by (cases X)
  obtain d' h' where Y: "Y = (d', h')" by (cases Y)
  let ?xs = "items d" and ?ys = "items d'"
  from s X Y have dflt: "has_default d = has_default d'"
    and keys: "map fst ?xs = map fst ?ys"
    and vx: "\<forall>r \<in> snd ` set ?xs. r < length h" and vy: "\<forall>r \<in> snd ` set ?ys. r < length h'"
    and pat: "\<forall>i < length ?xs. \<forall>j < length ?xs.
        (snd (?xs ! i) = snd (?xs ! j)) = (snd (?ys ! i) = snd (?ys ! j))"
    and vals: "\<forall>i < length ?xs. h ! snd (?xs ! i) = h' ! snd (?ys ! i)"
    by (simp_all add: same_shape_def valid_refs_def)
  from keys have len: "length ?ys = length ?xs"
    by (metis length_map)
  have nx: "snd (?xs ! i) < length h" if "i < length ?xs" for i
    using vx that by (metis image_eqI nth_mem)
  have ny: "snd (?ys ! i) < length h'" if "i < length ?xs" for i
    using vy that len by (metis image_eqI nth_mem)
  note l = map_of_same_keys [OF keys, of k]
  show ?thesis
  proof (cases "map_of ?xs k")
    case None
    with l have None': "map_of ?ys k = None" by simp
    let ?v = "bump db dn \<lparr>balance = 0, nonce = - 1\<rparr>"
    have sx: "step a X = (d\<lparr>items := ?xs @ [(k, length h)]\<rparr>, h @ [?v])"
      using None by (simp add: a X)
    have sy: "step a Y = (d'\<lparr>items := ?ys @ [(k, length h')]\<rparr>, h' @ [?v])"
      using None' by (simp add: a Y)
    have 1: "snd ((?xs @ [(k, length h)]) ! i) = (if i < length ?xs then snd (?xs ! i) else length h)"
      if "i < Suc (length ?xs)" for i
      using that by (auto simp: nth_append less_Suc_eq)
    have 2: "snd ((?ys @ [(k, length h')]) ! i) = (if i < length ?xs then snd (?ys ! i) else length h')"
      if "i < Suc (length ?xs)" for i
      using that len by (auto simp: nth_append less_Suc_eq)
    have p: "(snd ((?xs @ [(k, length h)]) ! i) = snd ((?xs @ [(k, length h)]) ! j)) =
        (snd ((?ys @ [(k, length h')]) ! i) = snd ((?ys @ [(k, length h')]) ! j))"
      if "i < Suc (length ?xs)" "j < Suc (length ?xs)" for i j
      using that pat nx [of i] nx [of j] ny [of i] ny [of j]
      by (simp add: 1 2) (metis less_irrefl)
    have v: "(h @ [?v]) ! snd ((?xs @ [(k, length h)]) ! i) =
        (h' @ [?v]) ! snd ((?ys @ [(k, length h')]) ! i)"
      if "i < Suc (length ?xs)" for i
    proof (cases "i < length ?xs")
      case True
      have a1: "snd ((?xs @ [(k, length h)]) ! i) = snd (?xs ! i)"
        using 1 [OF that] True by simp
      have a2: "snd ((?ys @ [(k, length h')]) ! i) = snd (?ys ! i)"
        using 2 [OF that] True by simp
      show ?thesis
        unfolding a1 a2 using vals nx [OF True] ny [OF True] True by (simp add: nth_append)
    next
      case False
      have a1: "snd ((?xs @ [(k, length h)]) ! i) = length h"
        using 1 [OF that] False by simp
      have a2: "snd ((?ys @ [(k, length h')]) ! i) = length h'"
        using 2 [OF that] False by simp
      show ?thesis
        unfolding a1 a2 by simp
    qed
    show ?thesis
      unfolding sx sy same_shape_def
      using dflt keys vx vy p v
      by (auto simp: valid_refs_def less_Suc_eq)
  next
    case (Some r)
    with l obtain i0 where i0: "i0 < length ?xs" "snd (?xs ! i0) = r"
      and Some': "map_of ?ys k = Some (snd (?ys ! i0))"
      by auto
    let ?r' = "snd (?ys ! i0)"
    have eq: "h ! r = h' ! ?r'"
      using vals i0 by auto
    have sx: "step a X = (d, h[r := bump db dn (h ! r)])"
      using Some by (simp add: a X)
    have sy: "step a Y = (d', h'[?r' := bump db dn (h ! r)])"
      using Some' eq by (simp add: a Y)
    have v: "h[r := bump db dn (h ! r)] ! snd (?xs ! i) =
        h'[?r' := bump db dn (h ! r)] ! snd (?ys ! i)"
      if "i < length ?xs" for i
    proof (cases "snd (?xs ! i) = r")
      case True
      with pat that i0 have "snd (?ys ! i) = ?r'" by auto
      with True nx [OF that] ny [OF that] show ?thesis by simp
    next
      case False
      with pat that i0 have "snd (?ys ! i) \<noteq> ?r'" by auto
      with False vals that show ?thesis by simp
    qed
    show ?thesis
      unfolding sx sy same_shape_def
      using dflt keys vx vy pat v
      by (simp add: valid_refs_def)
  qed
qed

lemma same_shape_fold:
  "same_shape X Y \<Longrightarrow> same_shape (fold step ops X) (fold step ops Y)"
  by (induction ops arbitrary: X Y) (simp_all add: same_shape_step)

section \<open>A deep copy has the same shape\<close>

lemma deepcopy_items_renaming:
  "deepcopy_items xs memo h = (ys, h') \<Longrightarrow>
   \<forall>r r'. map_of memo r = Some r' \<longrightarrow> r < n0 \<and> n0 \<le> r' \<and> r' < length h \<and> h ! r' = h ! r \<Longrightarrow>
   \<forall>r1 r2 r'. map_of memo r1 = Some r' \<and> map_of memo r2 = Some r' \<longrightarrow> r1 = r2 \<Longrightarrow>
   n0 \<le> length h \<Longrightarrow> \<forall>r \<in> snd ` set xs. r < n0 \<Longrightarrow>
     \<exists>f. (\<forall>r r'. map_of memo r = Some r' \<longrightarrow> f r = Some r') \<and>
         (\<forall>r r'. f r = Some r' \<longrightarrow> r < n0 \<and> n0 \<le> r' \<and> r' < length h' \<and> h' ! r' = h' ! r) \<and>
         (\<forall>r1 r2 r'. f r1 = Some r' \<and> f r2 = Some r' \<longrightarrow> r1 = r2) \<and>
         map fst ys = map fst xs \<and>
         (\<forall>i < length xs. f (snd (xs ! i)) = Some (snd (ys ! i))) \<and>
         take (length h) h' = h"
proof (induction xs arbitrary: memo h ys h')
  case Nil
  then show ?case
    by (intro exI [of _ "map_of memo"]) simp
next
  case (Cons x xs)
  obtain k r where x: "x = (k, r)" by (cases x)
  from Cons.prems(5) x have r: "r < n0" and rest: "\<forall>r \<in> snd ` set xs. r < n0"
    by simp_all
  show ?case
  proof (cases "map_of memo r")
    case (Some r')
    obtain zs where rec: "deepcopy_items xs memo h = (zs, h')" and ys: "ys = (k, r') # zs"
      using Cons.prems(1) Some x by (auto split: prod.splits)
    from Cons.IH [OF rec Cons.prems(2,3,4) rest] obtain f where
      f1: "\<forall>r r'. map_of memo r = Some r' \<longrightarrow> f r = Some r'" and
      f2: "\<forall>r r'. f r = Some r' \<longrightarrow> r < n0 \<and> n0 \<le> r' \<and> r' < length h' \<and> h' ! r' = h' ! r" and
      f3: "\<forall>r1 r2 r'. f r1 = Some r' \<and> f r2 = Some r' \<longrightarrow> r1 = r2" and
      f4: "map fst zs = map fst xs" and
      f5: "\<forall>i < length xs. f (snd (xs ! i)) = Some (snd (zs ! i))" and
      f6: "take (length h) h' = h"
      by blast
    have "f (snd ((x # xs) ! i)) = Some (snd (ys ! i))" if "i < length (x # xs)" for i
      using that f1 f5 Some by (cases i) (simp_all add: x ys)
    with f1 f2 f3 f4 f6 show ?thesis
      by (intro exI [of _ f]) (simp add: x ys)
  next
    case None
    let ?memo = "(r, length h) # memo" and ?h = "h @ [h ! r]"
    obtain zs where rec: "deepcopy_items xs ?memo ?h = (zs, h')"
      and ys: "ys = (k, length h) # zs"
      using Cons.prems(1) None x by (auto split: prod.splits)
    have m1: "\<forall>r1 r'. map_of ?memo r1 = Some r' \<longrightarrow>
        r1 < n0 \<and> n0 \<le> r' \<and> r' < length ?h \<and> ?h ! r' = ?h ! r1"
    proof (intro allI impI)
      fix r1 r'
      assume a: "map_of ?memo r1 = Some r'"
      show "r1 < n0 \<and> n0 \<le> r' \<and> r' < length ?h \<and> ?h ! r' = ?h ! r1"
      proof (cases "r1 = r")
        case True
        with a have "r' = length h" by simp
        with True r Cons.prems(4) show ?thesis
          by (simp add: nth_append)
      next
        case False
        with a have "map_of memo r1 = Some r'" by simp
        with Cons.prems(2) have "r1 < n0 \<and> n0 \<le> r' \<and> r' < length h \<and> h ! r' = h ! r1"
          by blast
        with Cons.prems(4) show ?thesis
          by (simp add: nth_append)
      qed
    qed
    have m2: "\<forall>r1 r2 r'. map_of ?memo r1 = Some r' \<and> map_of ?memo r2 = Some r' \<longrightarrow> r1 = r2"
    proof (intro allI impI)
      fix r1 r2 r'
      assume a: "map_of ?memo r1 = Some r' \<and> map_of ?memo r2 = Some r'"
      have old: "r'' < length h" if "map_of memo q = Some r''" for q r''
        using that Cons.prems(2) by blast
      show "r1 = r2"
      proof (cases "r' = length h")
        case True
        with a old [of r1 r'] old [of r2 r'] show ?thesis
          by (auto split: if_splits)
      next
        case False
        with a have "map_of memo r1 = Some r'" "map_of memo r2 = Some r'"
          by (auto split: if_splits)
        with Cons.prems(3) show ?thesis by blast
      qed
    qed
    have m3: "n0 \<le> length ?h"
      using Cons.prems(4) by simp
    from Cons.IH [OF rec m1 m2 m3 rest] obtain f where
      f1: "\<forall>r1 r'. map_of ?memo r1 = Some r' \<longrightarrow> f r1 = Some r'" and
      f2: "\<forall>r r'. f r = Some r' \<longrightarrow> r < n0 \<and> n0 \<le> r' \<and> r' < length h' \<and> h' ! r' = h' ! r" and
      f3: "\<forall>r1 r2 r'. f r1 = Some r' \<and> f r2 = Some r' \<longrightarrow> r1 = r2" and
      f4: "map fst zs = map fst xs" and
      f5: "\<forall>i < length xs. f (snd (xs ! i)) = Some (snd (zs ! i))" and
      f6: "take (length ?h) h' = ?h"
      by blast
    have g1: "\<forall>r1 r'. map_of memo r1 = Some r' \<longrightarrow> f r1 = Some r'"
    proof (intro allI impI)
      fix r1 r'
      assume a: "map_of memo r1 = Some r'"
      with None have "r1 \<noteq> r" by auto
      with a f1 show "f r1 = Some r'" by simp
    qed
    have fr: "f r = Some (length h)"
      using f1 by simp
    have g5: "f (snd ((x # xs) ! i)) = Some (snd (ys ! i))" if "i < length (x # xs)" for i
      using that fr f5 by (cases i) (simp_all add: x ys)
    have "take (length h) (take (length ?h) h') = take (length h) ?h"
      by (simp only: f6)
    then have g6: "take (length h) h' = h"
      by (simp add: min_def)
    from g1 f2 f3 f4 g5 g6 show ?thesis
      by (intro exI [of _ f]) (simp add: x ys)
  qed
qed

lemma deepcopy_dict_same_shape:
  assumes v: "valid_refs (d, h)"
  shows "same_shape (d, h) (deepcopy_dict d h)"
proof -
  let ?xs = "items d"
  obtain ys h' where c: "deepcopy_items ?xs [] h = (ys, h')"
    by (cases "deepcopy_items ?xs [] h")
  from v have valid: "\<forall>r \<in> snd ` set ?xs. r < length h"
    by (simp add: valid_refs_def)
  from deepcopy_items_renaming [OF c _ _ _ valid] obtain f where
    f2: "\<forall>r r'. f r = Some r' \<longrightarrow> r < length h \<and> length h \<le> r' \<and> r' < length h' \<and> h' ! r' = h' ! r"
    and f3: "\<forall>r1 r2 r'. f r1 = Some r' \<and> f r2 = Some r' \<longrightarrow> r1 = r2"
    and f4: "map fst ys = map fst ?xs"
    and f5: "\<forall>i < length ?xs. f (snd (?xs ! i)) = Some (snd (ys ! i))"
    and f6: "take (length h) h' = h"
    by auto
  from f4 have len: "length ys = length ?xs"
    by (metis length_map)
  have old: "h' ! r = h ! r" if "r < length h" for r
    using f6 that by (metis nth_take)
  have vy: "r' < length h'" if "r' \<in> snd ` set ys" for r'
  proof -
    from that obtain i where "i < length ys" "snd (ys ! i) = r'"
      by (auto simp: in_set_conv_nth)
    with len f5 f2 show ?thesis by auto
  qed
  have pat: "(snd (?xs ! i) = snd (?xs ! j)) = (snd (ys ! i) = snd (ys ! j))"
    if "i < length ?xs" "j < length ?xs" for i j
  proof
    assume "snd (?xs ! i) = snd (?xs ! j)"
    with f5 that have "Some (snd (ys ! i)) = Some (snd (ys ! j))"
      by metis
    then show "snd (ys ! i) = snd (ys ! j)" by simp
  next
    assume "snd (ys ! i) = snd (ys ! j)"
    with f5 that have "f (snd (?xs ! i)) = Some (snd (ys ! i))"
      "f (snd (?xs ! j)) = Some (snd (ys ! i))"
      by simp_all
    with f3 show "snd (?xs ! i) = snd (?xs ! j)" by blast
  qed
  have vals: "h ! snd (?xs ! i) = h' ! snd (ys ! i)" if "i < length ?xs" for i
  proof -
    from f5 that have "f (snd (?xs ! i)) = Some (snd (ys ! i))" by simp
    with f2 have "snd (?xs ! i) < length h" "h' ! snd (ys ! i) = h' ! snd (?xs ! i)"
      by blast+
    with old show ?thesis by simp
  qed
  have "deepcopy_dict d h = (d\<lparr>items := ys\<rparr>, h')"
    using c by (simp add: deepcopy_dict_def)
  with v f4 vy pat vals show ?thesis
    by (simp add: same_shape_def valid_refs_def)
qed

section \<open>The block operations as changes of entries\<close>

lemma update_loop_steps:
  "has_default (fst dh) \<Longrightarrow> update_loop cr m ts dh = (Inr d', h') \<Longrightarrow>
     (d', h') = fold step (concat (map (tx_deltas m) ts)) dh"
proof (induction ts arbitrary: dh)
  case Nil
  then show ?case by (cases dh) auto
next
  case (Cons t ts)
  let ?dh1 = "step (sender_hash t, 0, 0) dh"
  let ?dh2 = "step (m, fee t, 0) ?dh1"
  let ?dh3 = "step (sender_hash t, - amount t, 1) ?dh2"
  let ?dh4 = "step (recipient_hash t, amount t - fee t, 0) ?dh3"
  from getitem_step [OF Cons.prems(1), of "sender_hash t"] obtain r where
    g: "getitem (sender_hash t) dh = Inr (r, ?dh1)"
    by auto
  have e2: "earn_stmt m (fee t) False ?dh1 = Inr ?dh2"
    using Cons.prems(1) by (simp add: earn_stmt_step)
  have e3: "spend_stmt (sender_hash t) (amount t) False ?dh2 = Inr ?dh3"
    using Cons.prems(1) by (simp add: spend_stmt_step)
  have e4: "earn_stmt (recipient_hash t) (amount t - fee t) False ?dh3 = Inr ?dh4"
    using Cons.prems(1) by (simp add: earn_stmt_step)
  from Cons.prems(2) have
    vr: "verify cr t (balance (snd ?dh1 ! r)) (UserState.nonce (snd ?dh1 ! r)) = Inr True"
    by (auto simp: g simp del: step.simps split: sum.splits if_splits)
  from Cons.prems(2) have "update_loop cr m ts ?dh4 = (Inr d', h')"
    by (simp add: g vr e2 e3 e4 del: step.simps)
  with Cons.IH [of ?dh4] Cons.prems(1) show ?case
    by (simp add: tx_deltas_def)
qed

lemma update_states_steps:
  assumes "update_states cr B d h = (Inr d', h')"
  shows "(d', h') = fold step (block_deltas B) (\<lparr>has_default = True, items = items d\<rparr>, h)"
proof -
  let ?X = "(\<lparr>has_default = True, items = items d\<rparr>, h)"
  have e: "earn_stmt (miner B) 10000 False ?X = Inr (step (miner B, 10000, 0) ?X)"
    by (simp add: earn_stmt_step del: step.simps)
  from assms have "update_loop cr (miner B) (transactions B) (step (miner B, 10000, 0) ?X) =
      (Inr d', h')"
    unfolding update_states_def Let_def e by (simp del: step.simps)
  from update_loop_steps [OF _ this] show ?thesis
    by (simp add: block_deltas_def del: step.simps)
qed

lemma step_touch_present:
  assumes "valid_refs dh" and "k \<in> fst ` set (items (fst dh))"
  shows "step (k, 0, 0) dh = dh"
proof -
  obtain d h where dh: "dh = (d, h)" by (cases dh)
  from assms(2) dh obtain r where r: "map_of (items d) k = Some r" "r \<in> snd ` set (items d)"
    using map_of_present [of k "items d"] by auto
  with assms(1) dh have "r < length h"
    by (auto simp: valid_refs_def)
  with r show ?thesis
    by (simp add: dh)
qed

lemma undo_loop_steps:
  "has_default (fst dh) \<Longrightarrow> valid_refs dh \<Longrightarrow>
   \<forall>t \<in> set ts. sender_hash t \<in> fst ` set (items (fst dh)) \<Longrightarrow>
     undo_loop m ts dh =
       (Inr (fst (fold step (map negate (concat (map (tx_deltas m) ts))) dh)),
        snd (fold step (map negate (concat (map (tx_deltas m) ts))) dh))"
proof (induction ts arbitrary: dh)
  case Nil
  then show ?case by simp
next
  case (Cons t ts)
  let ?dh1 = "step (m, - fee t, 0) dh"
  let ?dh2 = "step (sender_hash t, amount t, - 1) ?dh1"
  let ?dh3 = "step (recipient_hash t, - (amount t - fee t), 0) ?dh2"
  have e1: "earn_stmt m (fee t) True dh = Inr ?dh1"
    using Cons.prems(1) by (simp add: earn_stmt_step)
  have e2: "spend_stmt (sender_hash t) (amount t) True ?dh1 = Inr ?dh2"
    using Cons.prems(1) by (simp add: spend_stmt_step)
  have e3: "earn_stmt (recipient_hash t) (amount t - fee t) True ?dh2 = Inr ?dh3"
    using Cons.prems(1) by (simp add: earn_stmt_step)
  have t0: "step (sender_hash t, 0, 0) dh = dh"
    using Cons.prems(2,3) by (intro step_touch_present) simp_all
  have keys: "\<forall>t \<in> set ts. sender_hash t \<in> fst ` set (items (fst ?dh3))"
    using Cons.prems(3) by (simp add: step_keys)
  have "undo_loop m (t # ts) dh = undo_loop m ts ?dh3"
    by (simp add: e1 e2 e3)
  also have "\<dots> = (Inr (fst (fold step (map negate (concat (map (tx_deltas m) ts))) ?dh3)),
      snd (fold step (map negate (concat (map (tx_deltas m) ts))) ?dh3))"
    using Cons.prems(1,2) keys by (intro Cons.IH) (simp_all add: step_valid)
  also have "fold step (map negate (concat (map (tx_deltas m) ts))) ?dh3 =
      fold step (map negate (concat (map (tx_deltas m) (t # ts)))) dh"
    by (simp add: tx_deltas_def t0)
  finally show ?case .
qed

lemma get_changes_for_undo_steps:
  assumes v: "valid_refs (d, h)" and dflt: "has_default d"
    and keys: "fst ` set (block_deltas B) \<subseteq> fst ` set (items d)"
  shows "get_changes_for_undo B d h =
     (Inr (fst (fold step (map negate (block_deltas B)) (deepcopy_dict d h))),
      snd (fold step (map negate (block_deltas B)) (deepcopy_dict d h)))"
proof -
  let ?Y = "deepcopy_dict d h"
  note sh = deepcopy_dict_same_shape [OF v]
  from sh dflt have dY: "has_default (fst ?Y)" and vY: "valid_refs ?Y"
    and kY: "fst ` set (items (fst ?Y)) = fst ` set (items d)"
    by (simp_all add: same_shape_def flip: set_map)
  let ?Y1 = "step (miner B, - 10000, 0) ?Y"
  have e: "earn_stmt (miner B) 10000 True ?Y = Inr ?Y1"
    using dY by (simp add: earn_stmt_step)
  have senders: "\<forall>t \<in> set (transactions B). sender_hash t \<in> fst ` set (items (fst ?Y1))"
  proof
    fix t
    assume "t \<in> set (transactions B)"
    then have "sender_hash t \<in> fst ` set (block_deltas B)"
      by (force simp: block_deltas_def tx_deltas_def)
    with keys have "sender_hash t \<in> fst ` set (items d)"
      by (rule subsetD)
    with kY show "sender_hash t \<in> fst ` set (items (fst ?Y1))"
      by (simp add: step_keys)
  qed
  have "get_changes_for_undo B d h = undo_loop (miner B) (transactions B) ?Y1"
    by (simp add: get_changes_for_undo_def e)
  also note undo_loop_steps [of ?Y1 "transactions B" "miner B"]
  finally show ?thesis
    using dY vY senders by (simp add: step_valid block_deltas_def)
qed

lemma wf_state_valid: "wf_state self hp \<Longrightarrow> valid_state self hp"
  by (simp add: wf_state_def valid_state_def wf_dict_def valid_refs_def)

lemma funded_valid_state: "valid_state funded_state funded_heap"
  using funded_wf_state by (rule wf_state_valid)

section \<open>Undoing works on a copy\<close>

text \<open>
  C10: \<open>get_changes_for_undo\<close> leaves its input unchanged. Whatever it returns, the
  objects that were in the store before the call are the same afterwards, and the
  dictionary it returns holds only objects created during the call.
\<close>

theorem get_changes_for_undo_input_unchanged:
  assumes "get_changes_for_undo self user_states_after h = (res, h')"
  shows "take (length h) h' = h \<and>
         (\<forall>d'. res = Inr d' \<longrightarrow> (\<forall>r \<in> snd ` set (items d'). length h \<le> r))"
  using get_changes_for_undo_frame [OF assms] by (simp add: fresh_from_def)

theorem get_changes_for_undo_input_unchanged_witness:
  "take 1 [\<lparr>balance = 10000, nonce = - 1\<rparr>, \<lparr>balance = 0, nonce = - 1\<rparr>] =
     [\<lparr>balance = 10000, nonce = - 1\<rparr>] \<and>
   fst (get_changes_for_undo example_block \<lparr>has_default = True, items = [(replicate 20 1, 0)]\<rparr>
      [\<lparr>balance = 10000, nonce = - 1\<rparr>]) =
     Inr \<lparr>has_default = True, items = [(replicate 20 1, 1)]\<rparr>"
  using get_changes_for_undo_input_unchanged [OF example_get_changes_for_undo]
  by (simp add: example_get_changes_for_undo)

section \<open>A failed reorganisation leaves the old state alone\<close>

text \<open>
  C4: if \<open>verify_reorg\<close> fails, every user object and every list that was in the
  store before the call is unchanged: \<open>old_state\<close> has the chain it had, and every
  \<open>UserState\<close> of its dictionary has the balance and nonce it had. (The attributes of
  \<open>old_state\<close>, its total difficulty among them, are never assigned to.)
\<close>

theorem verify_reorg_failure_isolated:
  assumes "verify_reorg cr old_state new_branch hp = (Inl e, hp')"
  shows "take (length (user_objs hp)) (user_objs hp') = user_objs hp \<and>
         take (length (list_objs hp)) (list_objs hp') = list_objs hp \<and>
         (longest_chain old_state < length (list_objs hp) \<longrightarrow>
            chain_of old_state hp' = chain_of old_state hp) \<and>
         (\<forall>r \<in> snd ` set (items (user_states old_state)).
            r < length (user_objs hp) \<longrightarrow> user_objs hp' ! r = user_objs hp ! r)"
proof -
  note f = verify_reorg_frame [OF assms]
  have "list_objs hp' ! l = list_objs hp ! l" if "l < length (list_objs hp)" for l
    using f that by (metis nth_take)
  moreover have "user_objs hp' ! r = user_objs hp ! r" if "r < length (user_objs hp)" for r
    using f that by (metis nth_take)
  ultimately show ?thesis
    using f by (simp add: chain_of_def)
qed

theorem verify_reorg_failure_isolated_witness:
  "chain_of one_block_state
     (snd (verify_reorg example_crypto one_block_state [example_block] one_block_heap)) =
     [example_block] \<and>
   user_objs (snd (verify_reorg example_crypto one_block_state [example_block] one_block_heap)) ! 0 =
     \<lparr>balance = 10000, nonce = - 1\<rparr>"
  using verify_reorg_failure_isolated [OF example_reorg_fails]
  unfolding example_reorg_fails
  by (simp add: one_block_state_def one_block_heap_def chain_of_def)

section \<open>A reorganisation needs strictly more work\<close>

text \<open>
  C5: where \<open>verify_reorg\<close> returns a state, the total difficulty of that state is
  strictly greater than that of \<open>old_state\<close> (and it is the sum of the difficulties
  of the replayed chain, if that of \<open>old_state\<close> was the sum over its chain). Where
  the replay ends with a total difficulty that is less than or equal to the old one,
  \<open>verify_reorg\<close> raises.
\<close>

theorem verify_reorg_strictly_greater:
  "(verify_reorg cr old_state new_branch hp = (Inr new_state, hp') \<longrightarrow>
      total_difficulty old_state < total_difficulty new_state \<and>
      (total_difficulty old_state = sum_list (map difficulty (chain_of old_state hp)) \<longrightarrow>
         total_difficulty new_state = sum_list (map difficulty (chain_of new_state hp')))) \<and>
   (reorg_replay cr old_state new_branch hp = (Inr u, working_state, hp'') \<and>
    total_difficulty working_state \<le> total_difficulty old_state \<longrightarrow>
      verify_reorg cr old_state new_branch hp =
        (Inl (AssertionError ''New chain has lower total difficulty than old chain''), hp''))"
proof -
  have "total_difficulty old_state < total_difficulty new_state \<and>
      (total_difficulty old_state = sum_list (map difficulty (chain_of old_state hp)) \<longrightarrow>
         total_difficulty new_state = sum_list (map difficulty (chain_of new_state hp')))"
    if ok: "verify_reorg cr old_state new_branch hp = (Inr new_state, hp')"
  proof -
    from ok obtain x where rp: "reorg_replay cr old_state new_branch hp = (Inr x, new_state, hp')"
      and gt: "total_difficulty old_state < total_difficulty new_state"
      by (auto simp: verify_reorg_def split: prod.splits sum.splits if_splits)
    from reorg_replay_consistent [OF rp] gt show ?thesis by simp
  qed
  moreover have "verify_reorg cr old_state new_branch hp =
      (Inl (AssertionError ''New chain has lower total difficulty than old chain''), hp'')"
    if "reorg_replay cr old_state new_branch hp = (Inr u, working_state, hp'')"
      and "total_difficulty working_state \<le> total_difficulty old_state"
    using that by (simp add: verify_reorg_def)
  ultimately show ?thesis by blast
qed

theorem verify_reorg_strictly_greater_witness:
  "total_difficulty empty_state < 1000 \<and>
   fst (verify_reorg example_crypto one_block_state [example_block] one_block_heap) =
     Inl (AssertionError ''New chain has lower total difficulty than old chain'')"
  using verify_reorg_strictly_greater [of example_crypto empty_state "[example_block]"
      "heap_with_chain []", THEN conjunct1, THEN mp, OF example_reorg_succeeds]
    verify_reorg_strictly_greater [of example_crypto one_block_state "[example_block]"
      one_block_heap, THEN conjunct2, THEN mp, OF conjI, OF example_replay]
  by (simp add: one_block_state_def)

section \<open>A rejected block can change balances\<close>

text \<open>
  C1: the claim fails on the code. \<open>update_states\<close> builds its dictionary from the
  objects of the caller's dictionary, so the reward is credited to the miner's object
  itself. Let a block be mined for the tip of the chain, by a miner that has an
  account, and let its first transaction have a sender hash that is not 20 bytes long.
  Then \<open>verify_and_apply_block\<close> raises, the chain state is returned as it was, and
  the miner's balance in the caller's dictionary is 10000 higher than before.
\<close>

theorem rejected_block_keeps_reward:
  assumes mined: "mine_block cr prev (int (length (chain_of self hp))) mnr (t # ts) tstamp
      (calculate_difficulty self hp) = Inr block"
    and link: "prev = (if chain_of self hp = [] then replicate 32 0
                       else block_id (last (chain_of self hp)))"
    and time: "chain_of self hp = [] \<or> timestamp (last (chain_of self hp)) \<le> tstamp"
    and size: "length mnr = 20" "length ts < 25"
    and known: "map_of (items (user_states self)) mnr = Some r" "r < length (user_objs hp)"
    and bad: "length (sender_hash t) \<noteq> 20"
  shows "\<exists>hp'. verify_and_apply_block cr block self hp =
            (Inl (AssertionError ''Sender hash should should be 20 bytes long''), self, hp') \<and>
          user_objs hp' ! r =
            (user_objs hp ! r)\<lparr>balance := balance (user_objs hp ! r) + 10000\<rparr>"
proof -
  note m = mine_block_sound [OF mined]
  let ?h1 = "(user_objs hp)[r := (user_objs hp ! r)\<lparr>balance := balance (user_objs hp ! r) + 10000\<rparr>]"
  let ?d0 = "\<lparr>has_default = True, items = items (user_states self)\<rparr>"
  have e1: "earn_stmt mnr 10000 False (?d0, user_objs hp) = Inr (?d0, ?h1)"
    using known by (simp add: earn_stmt_def getitem_def earn_def)
  obtain r' d1 h2 where g: "getitem (sender_hash t) (?d0, ?h1) = Inr (r', d1, h2)"
    and h2: "h2 = ?h1 \<or> h2 = ?h1 @ [\<lparr>balance = 0, nonce = - 1\<rparr>]"
    by (cases "map_of (items (user_states self)) (sender_hash t)") (auto simp: getitem_def)
  have v: "verify cr t b n = Inl (AssertionError ''Sender hash should should be 20 bytes long'')"
    for b n
    using bad by (simp add: verify_def)
  have us: "update_states cr block (user_states self) (user_objs hp) =
      (Inl (AssertionError ''Sender hash should should be 20 bytes long''), h2)"
    using m e1 g v by (simp add: update_states_def)
  have vg: "verify_and_get_changes cr block (calculate_difficulty self hp) (user_states self)
      (user_objs hp) = (Inl (AssertionError ''Sender hash should should be 20 bytes long''), h2)"
    using m size us by (simp add: verify_and_get_changes_def)
  have "verify_and_apply_block cr block self hp =
      (Inl (AssertionError ''Sender hash should should be 20 bytes long''), self,
       hp\<lparr>user_objs := h2\<rparr>)"
    using m link time vg by (auto simp: verify_and_apply_block_def Let_def)
  moreover have "h2 ! r = (user_objs hp ! r)\<lparr>balance := balance (user_objs hp ! r) + 10000\<rparr>"
    using h2 known(2) by (auto simp: nth_append)
  ultimately show ?thesis by simp
qed

theorem rejected_block_keeps_reward_witness:
  "\<exists>hp'. verify_and_apply_block example_crypto bad_block one_block_state one_block_heap =
      (Inl (AssertionError ''Sender hash should should be 20 bytes long''), one_block_state, hp') \<and>
     user_objs hp' ! 0 = \<lparr>balance = 20000, nonce = - 1\<rparr>"
proof -
  have mined: "mine_block example_crypto (replicate 32 0)
      (int (length (chain_of one_block_state one_block_heap))) (replicate 20 1)
      (bad_transaction # []) 0 (calculate_difficulty one_block_state one_block_heap) = Inr bad_block"
    by (simp add: example_difficulty example_chain example_mine_bad_block)
  have link: "replicate 32 0 = (if chain_of one_block_state one_block_heap = [] then replicate 32 0
      else block_id (last (chain_of one_block_state one_block_heap)))"
    by (simp add: example_chain example_block_def)
  have time: "chain_of one_block_state one_block_heap = [] \<or>
      timestamp (last (chain_of one_block_state one_block_heap)) \<le> 0"
    by (simp add: example_chain example_block_def)
  have known: "map_of (items (user_states one_block_state)) (replicate 20 1) = Some 0"
    "0 < length (user_objs one_block_heap)"
    by (simp_all add: one_block_state_def one_block_heap_def)
  have bad: "length (sender_hash bad_transaction) \<noteq> 20"
    by (simp add: bad_transaction_def)
  from rejected_block_keeps_reward [OF mined link time _ _ known bad]
  show ?thesis
    by (simp add: one_block_heap_def)
qed

section \<open>The order of the state transition\<close>

text \<open>
  C7: on a well-formed dictionary, \<open>update_states\<close> computes the state transition
  of the specification, \<open>state_transition\<close>: the reward first, then for each
  transaction in list order the verification against the sender's current balance and
  nonce, the fee for the miner, the debit and the nonce of the sender, and the credit of
  the recipient. It fails exactly when the transition fails, with the same error, and
  the account map of its result is the result of the transition. Since the fee is
  credited before the debit, the balance that the debit of a transaction sent by the
  miner is taken from already includes the fee of that transaction: after the
  statement that credits the fee, the sender's balance is the fee higher. (The
  verification comes before it: an accepted transaction has an amount of at most the
  sender's balance as it was before the fee.)
\<close>

theorem update_states_follows_transition:
  fixes block :: "'k Block"
  assumes "wf_dict (P, h)"
  shows "(\<forall>e h'. update_states cr block P h = (Inl e, h') \<longrightarrow>
            state_transition cr block (view (P, h)) = Inl e) \<and>
         (\<forall>P' h'. update_states cr block P h = (Inr P', h') \<longrightarrow>
            state_transition cr block (view (P, h)) = Inr (view (P', h'))) \<and>
         (\<forall>(t :: 'k Transaction) dh dh'.
            wf_dict dh \<and> has_default (fst dh) \<and> sender_hash t = miner block \<and>
            earn_stmt (miner block) (fee t) False dh = Inr dh' \<longrightarrow>
              balance (view dh' (sender_hash t)) = balance (view dh (sender_hash t)) + fee t) \<and>
         (\<forall>(t :: 'k Transaction) ts A A'.
            transition_loop cr (miner block) (t # ts) A = Inr A' \<longrightarrow>
              amount t \<le> balance (A (sender_hash t)))"
proof -
  have "state_transition cr block (view (P, h)) = Inl e"
    if "update_states cr block P h = (Inl e, h')" for e h'
    using update_states_sem [OF assms that] by simp
  moreover have "state_transition cr block (view (P, h)) = Inr (view (P', h'))"
    if "update_states cr block P h = (Inr P', h')" for P' h'
    using update_states_sem [OF assms that] by simp
  moreover have "balance (view dh' (sender_hash t)) = balance (view dh (sender_hash t)) + fee t"
    if "wf_dict dh \<and> has_default (fst dh) \<and> sender_hash t = miner block \<and>
        earn_stmt (miner block) (fee t) False dh = Inr dh'"
    for t :: "'k Transaction" and dh dh'
    using that earn_stmt_sem [of dh "miner block" "fee t" False]
    by (auto simp: adjust_def)
  moreover have "amount t \<le> balance (A (sender_hash t))"
    if "transition_loop cr (miner block) (t # ts) A = Inr A'"
    for t :: "'k Transaction" and ts A A'
  proof -
    from that obtain ok where
      v: "verify cr t (balance (A (sender_hash t))) (UserState.nonce (A (sender_hash t))) = Inr ok"
      by (auto split: sum.splits)
    with verify_not_False [of cr t] have
      "verify cr t (balance (A (sender_hash t))) (UserState.nonce (A (sender_hash t))) = Inr True"
      by (cases ok) auto
    then have "verify_conditions cr t (balance (A (sender_hash t)))
        (UserState.nonce (A (sender_hash t)))"
      by (simp only: verify_True_iff)
    then show ?thesis
      unfolding verify_conditions_def by blast
  qed
  ultimately show ?thesis by blast
qed

theorem update_states_follows_transition_witness:
  "state_transition example_crypto paying_block (view (funded_dict, [\<lparr>balance = 0, nonce = - 1\<rparr>])) =
     Inr (view (paid_dict, paid_store)) \<and>
   state_transition example_crypto bad_block (view (funded_dict, [\<lparr>balance = 0, nonce = - 1\<rparr>])) =
     Inl (AssertionError ''Sender hash should should be 20 bytes long'') \<and>
   balance (view (miner_dict, [\<lparr>balance = 10025, nonce = - 1\<rparr>]) (sender_hash example_transaction)) =
     balance (view (miner_dict, [\<lparr>balance = 10000, nonce = - 1\<rparr>]) (sender_hash example_transaction)) +
       fee example_transaction \<and>
   amount example_transaction \<le>
     balance (credit (miner paying_block) 10000 (view (funded_dict, [\<lparr>balance = 0, nonce = - 1\<rparr>]))
       (sender_hash example_transaction))"
proof -
  note ok = update_states_follows_transition [OF funded_wf, of example_crypto paying_block]
  note bad = update_states_follows_transition [OF funded_wf, of example_crypto bad_block]
  have 1: "state_transition example_crypto paying_block
      (view (funded_dict, [\<lparr>balance = 0, nonce = - 1\<rparr>])) = Inr (view (paid_dict, paid_store))"
    using ok example_update_states by blast
  have 2: "state_transition example_crypto bad_block
      (view (funded_dict, [\<lparr>balance = 0, nonce = - 1\<rparr>])) =
      Inl (AssertionError ''Sender hash should should be 20 bytes long'')"
    using bad example_update_states_fails by blast
  have "wf_dict (miner_dict, [\<lparr>balance = 10000, nonce = - 1\<rparr>]) \<and>
      has_default (fst (miner_dict, [\<lparr>balance = 10000, nonce = - 1\<rparr>])) \<and>
      sender_hash example_transaction = miner paying_block \<and>
      earn_stmt (miner paying_block) (fee example_transaction) False
        (miner_dict, [\<lparr>balance = 10000, nonce = - 1\<rparr>]) =
        Inr (miner_dict, [\<lparr>balance = 10025, nonce = - 1\<rparr>])"
    by (simp add: wf_dict_def miner_dict_def earn_stmt_def getitem_def earn_def paying_block_def
        example_transaction_def)
  with ok have 3: "balance (view (miner_dict, [\<lparr>balance = 10025, nonce = - 1\<rparr>])
        (sender_hash example_transaction)) =
      balance (view (miner_dict, [\<lparr>balance = 10000, nonce = - 1\<rparr>])
        (sender_hash example_transaction)) + fee example_transaction"
    by blast
  have "transactions paying_block = example_transaction # []"
    by (simp add: paying_block_def)
  with 1 have "transition_loop example_crypto (miner paying_block) (example_transaction # [])
      (credit (miner paying_block) 10000 (view (funded_dict, [\<lparr>balance = 0, nonce = - 1\<rparr>]))) =
      Inr (view (paid_dict, paid_store))"
    by (simp add: state_transition_def)
  with ok have 4: "amount example_transaction \<le>
      balance (credit (miner paying_block) 10000 (view (funded_dict, [\<lparr>balance = 0, nonce = - 1\<rparr>]))
        (sender_hash example_transaction))"
    by blast
  from 1 2 3 4 show ?thesis by simp
qed

section \<open>A block adds the mining reward to the supply\<close>

text \<open>
  C9: for a well-formed dictionary (every address with an object of its own), a block
  that \<open>verify_and_get_changes\<close> accepts makes the sum of the balances of all
  accounts exactly 10000 larger, whatever its transactions are.
\<close>

theorem accepted_block_adds_reward:
  assumes "wf_dict (P, h)" and "verify_and_get_changes cr block dfc P h = (Inr P', h')"
  shows "total_balance (P', h') = total_balance (P, h) + 10000"
  using update_states_sem [OF assms(1) verify_and_get_changes_accepts [OF assms(2)]]
  by simp

theorem accepted_block_adds_reward_witness:
  "total_balance (funded_dict, [\<lparr>balance = 0, nonce = - 1\<rparr>]) = 0 \<and>
   total_balance (paid_dict, paid_store) = 10000"
  using accepted_block_adds_reward [OF funded_wf example_verify_and_get_changes]
  by (simp add: total_balance_def funded_dict_def)

section \<open>Applying a block and undoing it\<close>

text \<open>
  C3: in a state whose references are valid (two addresses may share an object), if
  \<open>verify_and_apply_block\<close> accepts a block then \<open>undo_last_block\<close>, called
  next, succeeds and gives the state back: the chain is the same list with the same
  blocks, the total difficulty is the same, and the account map is the same at every
  address (an address whose entry is left at balance 0 and nonce -1 reads like an address
  without an entry).
\<close>

theorem apply_then_undo_restores:
  assumes valid: "valid_state self hp"
    and ok: "verify_and_apply_block cr block self hp = (Inr u, self1, hp1)"
  shows "\<exists>self2 hp2. undo_last_block self1 hp1 = (Inr (), self2, hp2) \<and>
           longest_chain self2 = longest_chain self \<and>
           chain_of self2 hp2 = chain_of self hp \<and>
           total_difficulty self2 = total_difficulty self \<and>
           view (user_states self2, user_objs hp2) = view (user_states self, user_objs hp)"
proof -
  let ?X0 = "(\<lparr>has_default = True, items = items (user_states self)\<rparr>, user_objs hp)"
  let ?ops = "block_deltas block"
  from valid have l: "longest_chain self < length (list_objs hp)"
    and v0: "valid_refs ?X0"
    by (simp_all add: valid_state_def valid_refs_def)
  from ok obtain d1 uo where
    vg: "verify_and_get_changes cr block (calculate_difficulty self hp) (user_states self)
          (user_objs hp) = (Inr d1, uo)"
    and self1: "self1 = self\<lparr>total_difficulty := total_difficulty self + difficulty block,
          user_states := d1\<rparr>"
    and hp1: "hp1 = hp\<lparr>user_objs := uo,
          list_objs := (list_objs hp)[longest_chain self := chain_of self hp @ [block]]\<rparr>"
    unfolding verify_and_apply_block_def Let_def
    by (auto split: if_splits sum.splits prod.splits)
  from vg have "update_states cr block (user_states self) (user_objs hp) = (Inr d1, uo)"
    unfolding verify_and_get_changes_def by (auto split: if_splits sum.splits)
  from update_states_steps [OF this] have X1: "(d1, uo) = fold step ?ops ?X0" .
  have "valid_refs (fold step ?ops ?X0)"
    using v0 by (rule fold_step_valid)
  then have v1: "valid_refs (d1, uo)"
    by (simp only: X1)
  have df1: "has_default d1" and k1: "fst ` set ?ops \<subseteq> fst ` set (items d1)"
    using fold_step_keys [of ?ops ?X0] fold_step_default [of ?ops ?X0]
    by (simp_all flip: X1)
  let ?R = "fold step (map negate ?ops) (deepcopy_dict d1 uo)"
  have gc: "get_changes_for_undo block d1 uo = (Inr (fst ?R), snd ?R)"
    using v1 df1 k1 by (rule get_changes_for_undo_steps)
  have "same_shape (fold step (map negate ?ops) (d1, uo)) ?R"
    using deepcopy_dict_same_shape [OF v1] by (rule same_shape_fold)
  then have "view ?R = view (fold step (map negate ?ops) (fold step ?ops ?X0))"
    by (simp add: same_shape_view X1)
  also have "\<dots> = view ?X0"
    using v0 by (rule view_apply_then_negate)
  also have "\<dots> = view (user_states self, user_objs hp)"
    by (rule ext) (simp add: view_def split: option.splits)
  finally have V: "view (fst ?R, snd ?R) = view (user_states self, user_objs hp)"
    by simp
  have chain1: "chain_of self1 hp1 = chain_of self hp @ [block]"
    using l by (simp add: self1 hp1 chain_of_def)
  have "undo_last_block self1 hp1 =
      (Inr (), self\<lparr>user_states := fst ?R\<rparr>, hp\<lparr>user_objs := snd ?R\<rparr>)"
    using l by (simp add: undo_last_block_def chain1 Let_def)
      (simp add: self1 hp1 gc chain_of_def)
  with V show ?thesis
    by (simp add: chain_of_def)
qed

theorem apply_then_undo_restores_witness:
  "\<exists>self2 hp2.
     undo_last_block \<lparr>longest_chain = 0, user_states = paid_dict, total_difficulty = 1000\<rparr>
        \<lparr>user_objs = paid_store, list_objs = [[paying_block]]\<rparr> = (Inr (), self2, hp2) \<and>
     longest_chain self2 = longest_chain funded_state \<and>
     chain_of self2 hp2 = chain_of funded_state funded_heap \<and>
     total_difficulty self2 = total_difficulty funded_state \<and>
     view (user_states self2, user_objs hp2) =
       view (user_states funded_state, user_objs funded_heap)"
  by (rule apply_then_undo_restores [OF funded_valid_state example_apply_paying_block])

end
